theory Spec2Isabelle
  imports Main "HOL-Library.Word" "HOL-Library.FSet" "HOL-Library.Char_ord"
    "HOL-Library.List_Lexorder" "HOL-Library.Product_Lexorder"
begin

unbundle bit_operations_syntax

section \<open>The connection pipeline (facade/dragonfly\_connection.cc)\<close>

text \<open>
  A connection is served by two fibers of one thread: the reader (\<open>ConnectionFlow\<close>,
  \<open>IoLoop\<close>, \<open>ParseRedis\<close>, \<open>ParseMemcache\<close>) and the dispatch worker
  (\<open>DispatchFiber\<close>). Both share \<open>dispatch_q_\<close> and the flags of the connection
  context. Calls into collaborators that are not part of the file (the command executor,
  the reply builder, the event count, the blocking counter, the allocator) are recorded,
  in program order, in a trace of events; the statistics counters, the phase string and
  the interaction timestamp play no part in any decision and are left out.
\<close>

subsection \<open>Data\<close>

text \<open>\<open>Connection::PubMessage\<close>: three string views, modelled by the bytes they show.\<close>

record PubMessage =
  pattern :: string
  channel :: string
  message :: string

text \<open>
  \<open>AsyncMsg\<close>: the message and the publisher's \<open>BlockingCounter\<close>. The counter is
  shared with the publisher, so it is modelled by its identity.
\<close>

record AsyncMsg =
  pub_msg :: PubMessage
  bc :: nat

text \<open>
  \<open>Connection::Request\<close>: the argument slices, the storage that backs them, and the
  optional asynchronous message (\<open>nullptr\<close> is \<open>None\<close>).
\<close>

record Request =
  args :: "string list"
  storage :: string
  async_msg :: "AsyncMsg option"

text \<open>\<open>MemcacheParser::Command\<close>, as far as the connection reads it.\<close>

record MCCommand =
  is_store_cmd :: bool
  bytes_len :: nat

text \<open>
  \<open>RespExpr\<close>: the reader only looks at the type tag and takes the buffer of a string
  (\<open>GetBuf\<close>); every other kind of expression is \<open>NON_STRING\<close>, for which
  \<open>GetBuf\<close> fails.
\<close>

datatype RespExpr = STRING string | NON_STRING

fun GetBuf :: "RespExpr \<Rightarrow> string option" where
  "GetBuf (STRING buf) = Some buf"
| "GetBuf NON_STRING = None"

text \<open>The parsers' results, as far as the connection tells them apart.\<close>

datatype RedisResult = Redis_OK | Redis_INPUT_PENDING | Redis_BAD_ARRAYLEN | Redis_BAD_BULKLEN

datatype MCResult = MC_OK | MC_INPUT_PENDING | MC_PARSE_ERROR | MC_BAD_DELTA | MC_OTHER

datatype ParserStatus = OK | NEED_MORE | ERROR

datatype event =
    Notify
  | Yield
  | DispatchCommand "string list"
  | DispatchMC MCCommand string
  | SetBatchMode bool
  | SendStringArr "string list"
  | BcDec nat
  | FreeAsyncMsg AsyncMsg
  | FreeRequest Request

record Connection =
  dispatch_q :: "Request list"
  conn_closing :: bool
  async_dispatch :: bool
  force_dispatch :: bool
  builder_error :: bool
  io_buf :: string
  trace :: "event list"

definition emit :: "event list \<Rightarrow> Connection \<Rightarrow> Connection" where
  "emit es s = s\<lparr>trace := trace s @ es\<rparr>"

subsection \<open>The reader: \<open>ParseRedis\<close> and \<open>ParseMemcache\<close>\<close>

text \<open>\<open>io_buf_.ConsumeInput\<close> drops the bytes the parser has consumed.\<close>

definition ConsumeInput :: "nat \<Rightarrow> Connection \<Rightarrow> Connection" where
  "ConsumeInput n s = s\<lparr>io_buf := drop n (io_buf s)\<rparr>"

text \<open>
  \<open>Connection::FromArgs\<close> copies the arguments into the storage of a new request; its
  \<open>CHECK_EQ\<close> aborts on an argument that is not a string (\<open>None\<close>).
\<close>

definition FromArgs :: "RespExpr list \<Rightarrow> Request option" where
  "FromArgs parse_args =
     (case those (map GetBuf parse_args) of
        None \<Rightarrow> None
      | Some bufs \<Rightarrow> Some \<lparr>args = bufs, storage = concat bufs, async_msg = None\<rparr>)"

definition RespToArgList :: "RespExpr list \<Rightarrow> string list option" where
  "RespToArgList src = those (map GetBuf src)"

text \<open>
  The queued branch of \<open>ParseRedis\<close>: append, notify the worker when the request is
  the only one queued, yield when more than ten are.
\<close>

definition push_request :: "Request \<Rightarrow> Connection \<Rightarrow> Connection" where
  "push_request req s =
     (let s1 = s\<lparr>dispatch_q := dispatch_q s @ [req]\<rparr>
      in if length (dispatch_q s1) = 1 then emit [Notify] s1
         else if length (dispatch_q s1) > 10 then emit [Yield] s1
         else s1)"

text \<open>
  One pass of the loop of \<open>ParseRedis\<close>, from the parser's answer (its result, the
  number of bytes it consumed and the arguments it produced) to \<open>ConsumeInput\<close>.
\<close>

definition ParseRedis_body ::
  "RedisResult \<Rightarrow> nat \<Rightarrow> RespExpr list \<Rightarrow> Connection \<Rightarrow> Connection option" where
  "ParseRedis_body result consumed parse_args s =
     (if result = Redis_OK \<and> parse_args \<noteq> [] then
        let is_sync_dispatch = \<not> async_dispatch s \<and> \<not> force_dispatch s in
        if dispatch_q s = [] \<and> is_sync_dispatch \<and> consumed \<ge> length (io_buf s) then
          (case RespToArgList parse_args of
             None \<Rightarrow> None
           | Some cmd_vec \<Rightarrow> Some (ConsumeInput consumed (emit [DispatchCommand cmd_vec] s)))
        else
          (case FromArgs parse_args of
             None \<Rightarrow> None
           | Some req \<Rightarrow> Some (ConsumeInput consumed (push_request req s)))
      else Some (ConsumeInput consumed s))"

text \<open>
  One pass of the loop of \<open>ParseMemcache\<close>. The pass ends by going round again, by
  leaving the loop, or by returning from the function; \<open>val\<close> is the local \<open>value\<close>,
  which lives across the passes.
\<close>

datatype loop_ctl = Continue | Break | Return ParserStatus

definition ParseMemcache_body ::
  "MCResult \<Rightarrow> nat \<Rightarrow> MCCommand \<Rightarrow> string \<Rightarrow> Connection \<Rightarrow> loop_ctl \<times> string \<times> Connection" where
  "ParseMemcache_body result consumed cmd val s =
     (let str = io_buf s in
      if result \<noteq> MC_OK then (Break, val, ConsumeInput consumed s)
      else
        let total_len = (if is_store_cmd cmd then consumed + (bytes_len cmd + 2) else consumed) in
        if is_store_cmd cmd \<and> \<not> (length (io_buf s) \<ge> total_len) then (Return NEED_MORE, val, s)
        else
          let val1 = (if is_store_cmd cmd then take (bytes_len cmd) (drop consumed str) else val);
              is_sync_dispatch = \<not> async_dispatch s;
              s1 = (if dispatch_q s = [] \<and> is_sync_dispatch then emit [DispatchMC cmd val1] s else s);
              s2 = ConsumeInput total_len s1
          in (if builder_error s2 then Break else Continue, val1, s2))"

subsection \<open>\<open>Connection::SendMsgVecAsync\<close>\<close>

definition SendMsgVecAsync :: "PubMessage \<Rightarrow> nat \<Rightarrow> Connection \<Rightarrow> Connection" where
  "SendMsgVecAsync pmsg b s =
     (if conn_closing s then emit [BcDec b] s
      else
        let amsg = \<lparr>pub_msg = pmsg, bc = b\<rparr>;
            req = \<lparr>args = [], storage = [], async_msg = Some amsg\<rparr>;
            s1 = s\<lparr>dispatch_q := dispatch_q s @ [req]\<rparr>
        in if length (dispatch_q s1) = 1 then emit [Notify] s1 else s1)"

subsection \<open>\<open>TestConnection::SendMsgVecAsync\<close> (the test double)\<close>

record TestConnection =
  backing_str :: "string list"
  messages :: "PubMessage list"
  test_trace :: "event list"

definition Test_SendMsgVecAsync :: "PubMessage \<Rightarrow> nat \<Rightarrow> TestConnection \<Rightarrow> TestConnection" where
  "Test_SendMsgVecAsync pmsg b t =
     (let t1 = t\<lparr>backing_str := backing_str t @ [channel pmsg]\<rparr>;
          dest1 = \<lparr>pattern = [], channel = last (backing_str t1), message = []\<rparr>;
          t2 = t1\<lparr>backing_str := backing_str t1 @ [message pmsg]\<rparr>;
          dest2 = dest1\<lparr>message := last (backing_str t2)\<rparr>;
          t3 = (if pattern pmsg \<noteq> [] then t2\<lparr>backing_str := backing_str t2 @ [pattern pmsg]\<rparr>
                else t2);
          dest3 = (if pattern pmsg \<noteq> [] then dest2\<lparr>pattern := last (backing_str t3)\<rparr>
                   else dest2)
      in t3\<lparr>messages := messages t3 @ [dest3], test_trace := test_trace t3 @ [BcDec b]\<rparr>)"

subsection \<open>\<open>Connection::DispatchFiber\<close>\<close>

text \<open>
  One pass of the worker's main loop after \<open>await\<close> has returned with the closing flag
  clear: the front request is popped and served. \<open>front()\<close> of an empty queue is
  undefined, hence \<open>None\<close>; the wait condition excludes it.
\<close>

definition DispatchFiber_serve :: "Connection \<Rightarrow> Connection option" where
  "DispatchFiber_serve s =
     (case dispatch_q s of
        [] \<Rightarrow> None
      | req # q \<Rightarrow>
          let s1 = s\<lparr>dispatch_q := q\<rparr> in
          (case async_msg req of
             Some am \<Rightarrow>
               let pm = pub_msg am;
                   arr = (if pattern pm = [] then [''message'', channel pm, message pm]
                          else [''pmessage'', pattern pm, channel pm, message pm])
               in Some (emit [SendStringArr arr, BcDec (bc am), FreeAsyncMsg am, FreeRequest req] s1)
           | None \<Rightarrow>
               let s2 = emit [SetBatchMode (dispatch_q s1 \<noteq> [])] s1;
                   s3 = s2\<lparr>async_dispatch := True\<rparr>;
                   s4 = emit [DispatchCommand (args req)] s3;
                   s5 = s4\<lparr>async_dispatch := False\<rparr>
               in Some (emit [FreeRequest req] s5)))"

text \<open>The loop that cleans up the leftovers once the main loop has been left.\<close>

function DispatchFiber_cleanup :: "Connection \<Rightarrow> Connection" where
  "DispatchFiber_cleanup s =
     (case dispatch_q s of
        [] \<Rightarrow> s
      | req # q \<Rightarrow>
          let s1 = s\<lparr>dispatch_q := q\<rparr>;
              s2 = (case async_msg req of
                      Some am \<Rightarrow> emit [BcDec (bc am), FreeAsyncMsg am] s1
                    | None \<Rightarrow> s1)
          in DispatchFiber_cleanup (emit [FreeRequest req] s2))"
  by pat_completeness auto
termination
  by (relation "measure (\<lambda>s. length (dispatch_q s))")
     (auto simp: emit_def split: option.splits)

declare DispatchFiber_cleanup.simps [simp del]

text \<open>
  The worker suspends in \<open>await\<close>, in the command executor and in the reply builder;
  whatever the other fibers of the thread do to the connection meanwhile is given as a
  schedule: a list of bursts of operations, one burst for each time the worker is
  suspended. \<open>EnvRequest\<close> is the reader queueing a parsed request, \<open>EnvPublish\<close> a
  publisher calling \<open>SendMsgVecAsync\<close>, \<open>EnvClose\<close> the reader or the socket poller
  setting the closing flag and notifying, \<open>EnvWriteError\<close> the reply builder recording
  a failed write.
\<close>

datatype env_op =
    EnvRequest Request
  | EnvPublish PubMessage nat
  | EnvClose
  | EnvWriteError

fun env_apply :: "env_op \<Rightarrow> Connection \<Rightarrow> Connection" where
  "env_apply (EnvRequest req) s = push_request req s"
| "env_apply (EnvPublish pmsg b) s = SendMsgVecAsync pmsg b s"
| "env_apply EnvClose s = emit [Notify] (s\<lparr>conn_closing := True\<rparr>)"
| "env_apply EnvWriteError s = s\<lparr>builder_error := True\<rparr>"

text \<open>
  \<open>evc_.await\<close>: returns at once when the condition holds, otherwise the worker stays
  suspended burst after burst; a schedule that ends with the condition still false leaves
  it suspended for ever (\<open>None\<close>).
\<close>

fun await :: "env_op list list \<Rightarrow> Connection \<Rightarrow> (env_op list list \<times> Connection) option" where
  "await [] s = (if conn_closing s \<or> dispatch_q s \<noteq> [] then Some ([], s) else None)"
| "await (ops # env) s =
     (if conn_closing s \<or> dispatch_q s \<noteq> [] then Some (ops # env, s)
      else await env (fold env_apply ops s))"

function DispatchFiber_loop :: "env_op list list \<Rightarrow> Connection \<Rightarrow> Connection option" where
  "DispatchFiber_loop env s =
     (if builder_error s then Some s
      else
        (case await env s of
           None \<Rightarrow> None
         | Some (env1, s1) \<Rightarrow>
             if conn_closing s1 then Some s1
             else
               (case DispatchFiber_serve s1 of
                  None \<Rightarrow> None
                | Some s2 \<Rightarrow>
                    (case env1 of
                       [] \<Rightarrow> DispatchFiber_loop [] s2
                     | ops # env2 \<Rightarrow> DispatchFiber_loop env2 (fold env_apply ops s2)))))"
  by pat_completeness auto
termination
proof (relation "measures [\<lambda>(env, s). length env, \<lambda>(env, s). length (dispatch_q s)]",
    goal_cases)
  case 1
  show ?case by simp
next
  case (2 env s x2 env1 s1 s2)
  have served: "length (dispatch_q t') < length (dispatch_q t)"
    if "DispatchFiber_serve t = Some t'" for t t'
    using that
    by (auto simp: DispatchFiber_serve_def emit_def Let_def split: list.splits option.splits)
  from 2 have aw: "await env s = Some ([], s1)" by simp
  show ?case
  proof (cases env)
    case Nil
    with aw have "s1 = s" by (auto split: if_splits)
    moreover from 2 have "length (dispatch_q s2) < length (dispatch_q s1)"
      using served [of s1 s2] by simp
    ultimately show ?thesis using Nil by simp
  next
    case (Cons a list)
    then show ?thesis by simp
  qed
next
  case (3 env s x2 env1 s1 s2 ops env2)
  have shorter: "length e1 \<le> length e"
    if "await e t = Some (e1, t1)" for e t e1 t1
    using that by (induction e t rule: await.induct) (auto split: if_splits)
  from 3 have "await env s = Some (ops # env2, s1)" by simp
  then have "length (ops # env2) \<le> length env" by (rule shorter)
  then show ?case by simp
qed

declare DispatchFiber_loop.simps [simp del]

definition DispatchFiber :: "env_op list list \<Rightarrow> Connection \<Rightarrow> Connection option" where
  "DispatchFiber env s =
     (case DispatchFiber_loop env s of
        None \<Rightarrow> None
      | Some s1 \<Rightarrow> Some (DispatchFiber_cleanup (s1\<lparr>conn_closing := True\<rparr>)))"

subsection \<open>The sizes of the read buffer\<close>

definition kMinReadSize :: nat where
  "kMinReadSize = 256"

definition kMaxReadSize :: nat where
  "kMaxReadSize = 32 * 1024"

subsection \<open>The HTTP probe: \<open>MatchHttp11Line\<close> and \<open>CheckForHttpProto\<close>\<close>

text \<open>\<open>absl::StartsWith\<close> and \<open>absl::EndsWith\<close>.\<close>

definition StartsWith :: "string \<Rightarrow> string \<Rightarrow> bool" where
  "StartsWith text pre \<longleftrightarrow> length pre \<le> length text \<and> take (length pre) text = pre"

definition EndsWith :: "string \<Rightarrow> string \<Rightarrow> bool" where
  "EndsWith text suf \<longleftrightarrow>
     length suf \<le> length text \<and> drop (length text - length suf) text = suf"

definition MatchHttp11Line :: "string \<Rightarrow> bool" where
  "MatchHttp11Line line \<longleftrightarrow> StartsWith line ''GET '' \<and> EndsWith line ''HTTP/1.1''"

text \<open>\<open>string_view::find\<close> of a character: its first position, \<open>npos\<close> being \<open>None\<close>.\<close>

fun sv_find :: "char \<Rightarrow> string \<Rightarrow> nat option" where
  "sv_find c [] = None"
| "sv_find c (x # xs) = (if x = c then Some 0 else map_option Suc (sv_find c xs))"

definition LF :: char where
  "LF = CHR 0x0A"

definition CR :: char where
  "CR = CHR 0x0D"

text \<open>
  What \<open>peer->Recv\<close> answers to one call: an error code, or the bytes the socket holds
  for it, of which the call takes as many as the span it is given has room for. The list
  of answers stands for the socket; when it is used up, \<open>Recv\<close> does not return
  (\<open>None\<close>).
\<close>

datatype recv = RecvError nat | RecvBytes string

text \<open>
  The loop of \<open>CheckForHttpProto\<close>. The buffer class is not part of the file:
  \<open>capacity\<close> is the capacity of \<open>io_buf_\<close>, which the probe never changes (it
  does not call \<open>Reserve\<close>), and \<open>buf\<close> its input, of which the probe consumes
  nothing. \<open>AppendBuffer()\<close> is the room after the input, \<open>capacity - length buf\<close>
  bytes; \<open>Recv\<close> writes into it, so that no call returns more than fits there, and
  \<open>CommitWrite\<close> adds what it returned to the input.
\<close>

fun CheckForHttpProto_loop ::
  "recv list \<Rightarrow> nat \<Rightarrow> nat \<Rightarrow> string \<Rightarrow> ((nat + bool) \<times> string) option" where
  "CheckForHttpProto_loop [] last_len capacity buf = None"
| "CheckForHttpProto_loop (r # rs) last_len capacity buf =
     (case r of
        RecvError ec \<Rightarrow> Some (Inl ec, buf)
      | RecvBytes bytes \<Rightarrow>
          let append_sz = capacity - length buf;
              buf1 = buf @ take append_sz bytes;
              ib = drop last_len buf1
          in (case sv_find LF ib of
                Some pos \<Rightarrow>
                  let ib1 = take (last_len + pos) buf1
                  in if length ib1 < 10 \<or> last ib1 \<noteq> CR then Some (Inr False, buf1)
                     else Some (Inr (MatchHttp11Line (butlast ib1)), buf1)
              | None \<Rightarrow>
                  let last_len1 = length buf1
                  in if last_len1 < 1024 then CheckForHttpProto_loop rs last_len1 capacity buf1
                     else Some (Inr False, buf1)))"

text \<open>The probe starts with \<open>last_len = 0\<close>.\<close>

definition CheckForHttpProto ::
  "recv list \<Rightarrow> nat \<Rightarrow> string \<Rightarrow> ((nat + bool) \<times> string) option" where
  "CheckForHttpProto rs capacity buf = CheckForHttpProto_loop rs 0 capacity buf"

text \<open>
  Where \<open>HandleRequests\<close> takes a connection without TLS. Its buffer is the one the
  constructor has built, \<open>io_buf_(kMinReadSize)\<close>, and is empty. The connection goes
  to the HTTP connection, which parses the buffer; to \<open>ConnectionFlow\<close>, which starts
  on the bytes already in the buffer; or nowhere, when the probe has failed with an error.
\<close>

datatype route = HttpAdmin string | CommandFlow string | NoFlow nat

definition HandleRequests_route :: "bool \<Rightarrow> recv list \<Rightarrow> route option" where
  "HandleRequests_route http_admin_console rs =
     (if http_admin_console then
        (case CheckForHttpProto rs kMinReadSize [] of
           None \<Rightarrow> None
         | Some (Inl ec, buf) \<Rightarrow> Some (NoFlow ec)
         | Some (Inr is_http, buf) \<Rightarrow> Some (if is_http then HttpAdmin buf else CommandFlow buf))
      else Some (CommandFlow []))"

subsection \<open>Growing the read buffer in \<open>IoLoop\<close>\<close>

text \<open>
  The branch of \<open>IoLoop\<close> taken when parsing has answered \<open>NEED_MORE\<close>. The buffer
  class is not part of the file: \<open>reserve c n\<close> stands for the capacity the buffer
  reports after \<open>Reserve(n)\<close> when it reported \<open>c\<close> before. \<open>parser_hint\<close> is 0 on
  a memcache connection; \<open>append_sz\<close> is the size of the append buffer handed to
  \<open>Recv\<close> and \<open>recv_sz\<close> what \<open>Recv\<close> returned.
\<close>

definition IoLoop_need_more ::
  "(nat \<Rightarrow> nat \<Rightarrow> nat) \<Rightarrow> nat \<Rightarrow> nat \<Rightarrow> nat \<Rightarrow> nat \<Rightarrow> nat" where
  "IoLoop_need_more reserve capacity parser_hint append_sz recv_sz =
     (if capacity < kMaxReadSize then
        (if parser_hint > capacity then reserve capacity (min kMaxReadSize parser_hint)
         else if append_sz = recv_sz \<and> append_sz > capacity div 2
           then reserve capacity (capacity * 2)
         else capacity)
      else capacity)"

text \<open>
  The capacity after a series of reads that ended in \<open>NEED_MORE\<close>, each given by its
  parser hint, append-buffer size and received size. Nothing else in the connection
  changes the capacity.
\<close>

fun capacity_after :: "(nat \<Rightarrow> nat \<Rightarrow> nat) \<Rightarrow> (nat \<times> nat \<times> nat) list \<Rightarrow> nat \<Rightarrow> nat" where
  "capacity_after reserve [] capacity = capacity"
| "capacity_after reserve ((parser_hint, append_sz, recv_sz) # reads) capacity =
     capacity_after reserve reads
       (IoLoop_need_more reserve capacity parser_hint append_sz recv_sz)"

section \<open>The string set (core/string\_set.h)\<close>

subsection \<open>Tagged pointers\<close>

text \<open>
  A \<open>SuperPtr\<close> is one machine word (\<open>static_assert(sizeof(SuperPtr) == 8)\<close>): a
  pointer whose two high bits are flags.
\<close>

type_synonym SuperPtr = "64 word"

definition kLinkBit :: "64 word" where
  "kLinkBit = push_bit 63 1"

definition kDisplaceBit :: "64 word" where
  "kDisplaceBit = push_bit 62 1"

definition kTagMask :: "64 word" where
  "kTagMask = kLinkBit OR kDisplaceBit"

definition sizeof_SuperPtr :: "64 word" where
  "sizeof_SuperPtr = 8"

definition IsSds :: "SuperPtr \<Rightarrow> bool" where
  "IsSds p \<longleftrightarrow> p AND kLinkBit = 0"

definition IsLink :: "SuperPtr \<Rightarrow> bool" where
  "IsLink p \<longleftrightarrow> p AND kLinkBit = kLinkBit"

definition IsEmpty :: "SuperPtr \<Rightarrow> bool" where
  "IsEmpty p \<longleftrightarrow> p = 0"

definition get_ptr :: "SuperPtr \<Rightarrow> 64 word" where
  "get_ptr p = p AND NOT kTagMask"

definition IsDisplaced :: "SuperPtr \<Rightarrow> bool" where
  "IsDisplaced p \<longleftrightarrow> p AND kDisplaceBit = kDisplaceBit"

definition SetLink :: "64 word \<Rightarrow> SuperPtr" where
  "SetLink lk = lk OR kLinkBit"

definition SetDisplaced :: "SuperPtr \<Rightarrow> SuperPtr" where
  "SetDisplaced p = p OR kDisplaceBit"

definition ClearDisplaced :: "SuperPtr \<Rightarrow> SuperPtr" where
  "ClearDisplaced p = p AND NOT kDisplaceBit"

subsection \<open>The set\<close>

text \<open>
  The fields of \<open>StringSet\<close>. Of the vector \<open>entries_\<close> the model keeps the slots and
  the capacity the vector reports.
\<close>

record StringSet =
  entries :: "SuperPtr list"
  entries_capacity :: "64 word"
  obj_malloc_used :: "64 word"
  size_ :: "32 word"
  num_chain_entries :: "32 word"
  capacity_log :: "32 word"

definition bucket_count :: "StringSet \<Rightarrow> nat" where
  "bucket_count s = length (entries s)"

text \<open>
  \<open>set_malloc_used\<close>: \<open>num_chain_entries_\<close> is widened to \<open>size_t\<close>, and sum and
  product are computed in \<open>size_t\<close>.
\<close>

definition set_malloc_used :: "StringSet \<Rightarrow> 64 word" where
  "set_malloc_used s = (ucast (num_chain_entries s) + entries_capacity s) * sizeof_SuperPtr"

text \<open>
  \<open>BucketId\<close>: the top \<open>capacity_log_\<close> bits of the hash, narrowed to 32 bits. The shift
  count is computed in \<open>unsigned\<close>; a count of 64 or more is undefined (\<open>None\<close>).
\<close>

definition BucketId :: "StringSet \<Rightarrow> 64 word \<Rightarrow> 32 word option" where
  "BucketId s hash =
     (let n = unat ((64 :: 32 word) - capacity_log s)
      in if n < 64 then Some (ucast (drop_bit n hash)) else None)"

text \<open>
  A vector of 8-byte elements never reports a capacity beyond its \<open>max_size()\<close>, which
  on a 64-bit target is \<open>PTRDIFF_MAX / 8\<close>.
\<close>

definition vector_max_size :: nat where
  "vector_max_size = (2 ^ 63 - 1) div 8"

section \<open>Subscriptions of a connection (server/conn\_context.cc)\<close>

text \<open>
  \<open>ConnectionState::SubscribeInfo\<close> holds the channels and the patterns the connection
  is subscribed to (and a borrow token, which \<open>OnClose\<close> waits on). The context keeps
  it behind a pointer that is null while there is no subscription. What the context
  writes through its reply builder, and what the tasks it posts call on the channel slice
  of each shard, is recorded: the replies in one sequence, the calls shard by shard.
\<close>

record SubscribeInfo =
  channels :: "string fset"
  patterns :: "string fset"

definition IsEmpty_info :: "SubscribeInfo \<Rightarrow> bool" where
  "IsEmpty_info info \<longleftrightarrow> channels info = {||} \<and> patterns info = {||}"

datatype reply = StartArray nat | SendBulkString string | SendLong int

datatype slice_call =
    AddSubscription string nat
  | RemoveSubscription string
  | AddGlobPattern string nat
  | RemoveGlobPattern string

record ConnectionContext =
  subscribe_info :: "SubscribeInfo option"
  ctx_force_dispatch :: bool
  replies :: "reply list"
  slice_calls :: "nat \<Rightarrow> slice_call list"

subsection \<open>\<open>ConnectionContext::ChangeSubscription\<close>\<close>

text \<open>
  The loop that gathers the channels: each argument is inserted into (or erased from) the
  set, the size of the set after it is stored in \<open>result\<close> (a vector of \<open>unsigned\<close>),
  and the argument is kept, with its shard, when the set has changed. The function returns
  the set, the sizes and the kept channels.
\<close>

fun gather_channels ::
  "bool \<Rightarrow> (string \<Rightarrow> nat) \<Rightarrow> string list \<Rightarrow> string fset
     \<Rightarrow> string fset \<times> nat list \<times> (nat \<times> string) list" where
  "gather_channels to_add shard_of [] S = (S, [], [])"
| "gather_channels to_add shard_of (ch # rest) S =
     (let res = (if to_add then ch |\<notin>| S else ch |\<in>| S);
          S1 = (if to_add then finsert ch S else S |-| {|ch|});
          (S2, sizes, chans) = gather_channels to_add shard_of rest S1
      in (S2, (fcard S1 mod 2 ^ 32) # sizes,
          (if res then [(shard_of ch, ch)] else []) @ chans))"

text \<open>
  \<open>shard_idx\<close>: first the number of kept channels of each shard, then, by the cumulative
  sum, the index in the sorted \<open>channels\<close> at which each shard begins.
\<close>

definition count_shards :: "nat \<Rightarrow> (nat \<times> string) list \<Rightarrow> nat list" where
  "count_shards n chans =
     fold (\<lambda>k_v idx. idx[fst k_v := idx ! fst k_v + 1]) chans (replicate (n + 1) 0)"

function cumulative :: "nat \<Rightarrow> nat \<Rightarrow> nat list \<Rightarrow> nat list" where
  "cumulative i prev shard_idx =
     (if i < length shard_idx then
        let cur = shard_idx ! i
        in cumulative (i + 1) cur (shard_idx[i := shard_idx ! (i - 1) + prev])
      else shard_idx)"
  by pat_completeness auto
termination
  by (relation "measure (\<lambda>(i, prev, shard_idx). length shard_idx - i)") auto

declare cumulative.simps [simp del]

definition shard_index :: "nat \<Rightarrow> (nat \<times> string) list \<Rightarrow> nat list" where
  "shard_index n chans =
     (let shard_idx = count_shards n chans;
          prev = shard_idx ! 0
      in cumulative 1 prev (shard_idx[0 := 0]))"

text \<open>
  The task of one shard (the callback \<open>cb\<close>), and \<open>RunBriefInParallel\<close> with the
  predicate that selects the shards that have channels.
\<close>

definition subscription_cb ::
  "bool \<Rightarrow> nat \<Rightarrow> (nat \<times> string) list \<Rightarrow> nat list \<Rightarrow> nat \<Rightarrow> slice_call list" where
  "subscription_cb to_add tid chans shard_idx sid =
     map (\<lambda>i. if to_add then AddSubscription (snd (chans ! i)) tid
               else RemoveSubscription (snd (chans ! i)))
       [shard_idx ! sid ..< shard_idx ! (sid + 1)]"

definition RunBriefInParallel ::
  "nat \<Rightarrow> (nat \<Rightarrow> slice_call list) \<Rightarrow> (nat \<Rightarrow> bool) \<Rightarrow> ConnectionContext \<Rightarrow> ConnectionContext" where
  "RunBriefInParallel n cb pred cntx =
     cntx\<lparr>slice_calls :=
       (\<lambda>sid. slice_calls cntx sid @ (if sid < n \<and> pred sid then cb sid else []))\<rparr>"

text \<open>The acknowledgements written when \<open>to_reply\<close> is set.\<close>

definition send_replies :: "string \<Rightarrow> string list \<Rightarrow> nat list \<Rightarrow> reply list" where
  "send_replies action argv result =
     concat (map (\<lambda>i. [StartArray 3, SendBulkString action, SendBulkString (argv ! i),
                        SendLong (int (result ! i))])
               [0 ..< length result])"

text \<open>
  \<open>ChangeSubscription\<close>. \<open>shard_of\<close> is \<open>Shard(channel, shard_set->size())\<close>, \<open>n\<close> the
  number of shards and \<open>tid\<close> the index of the connection's thread.
\<close>

definition ChangeSubscription ::
  "(string \<Rightarrow> nat) \<Rightarrow> nat \<Rightarrow> nat \<Rightarrow> bool \<Rightarrow> bool \<Rightarrow> string list
     \<Rightarrow> ConnectionContext \<Rightarrow> ConnectionContext" where
  "ChangeSubscription shard_of n tid to_add to_reply argv cntx =
     (let result0 = replicate (if to_reply then length argv else 0) 0;
          (result, cntx1) =
            (if to_add \<or> subscribe_info cntx \<noteq> None then
               let (info0, force0) =
                     (case subscribe_info cntx of
                        None \<Rightarrow> (\<lparr>channels = {||}, patterns = {||}\<rparr>, True)
                      | Some info \<Rightarrow> (info, ctx_force_dispatch cntx));
                   (S, sizes, chans0) = gather_channels to_add shard_of argv (channels info0);
                   info1 = info0\<lparr>channels := S\<rparr>;
                   (info2, force2) =
                     (if \<not> to_add \<and> IsEmpty_info info1 then (None, False)
                      else (Some info1, force0));
                   chans = sort chans0;
                   shard_idx = shard_index n chans;
                   c1 = cntx\<lparr>subscribe_info := info2, ctx_force_dispatch := force2\<rparr>
               in (if to_reply then sizes else result0,
                   RunBriefInParallel n (subscription_cb to_add tid chans shard_idx)
                     (\<lambda>sid. shard_idx ! (sid + 1) > shard_idx ! sid) c1)
             else (result0, cntx))
      in if to_reply then
           cntx1\<lparr>replies := replies cntx1
                     @ send_replies (if to_add then ''subscribe'' else ''unsubscribe'') argv result\<rparr>
         else cntx1)"

subsection \<open>\<open>ConnectionContext::ChangePSub\<close>\<close>

fun gather_patterns ::
  "bool \<Rightarrow> string list \<Rightarrow> string fset \<Rightarrow> string fset \<times> nat list \<times> string list" where
  "gather_patterns to_add [] S = (S, [], [])"
| "gather_patterns to_add (pat # rest) S =
     (let res = (if to_add then pat |\<notin>| S else pat |\<in>| S);
          S1 = (if to_add then finsert pat S else S |-| {|pat|});
          (S2, sizes, pats) = gather_patterns to_add rest S1
      in (S2, (fcard S1 mod 2 ^ 32) # sizes, (if res then [pat] else []) @ pats))"

definition pattern_cb :: "bool \<Rightarrow> nat \<Rightarrow> string list \<Rightarrow> nat \<Rightarrow> slice_call list" where
  "pattern_cb to_add tid pats sid =
     map (\<lambda>pat. if to_add then AddGlobPattern pat tid else RemoveGlobPattern pat) pats"

definition ChangePSub ::
  "nat \<Rightarrow> nat \<Rightarrow> bool \<Rightarrow> bool \<Rightarrow> string list \<Rightarrow> ConnectionContext \<Rightarrow> ConnectionContext" where
  "ChangePSub n tid to_add to_reply argv cntx =
     (let result0 = replicate (if to_reply then length argv else 0) 0;
          (result, cntx1) =
            (if to_add \<or> subscribe_info cntx \<noteq> None then
               let (info0, force0) =
                     (case subscribe_info cntx of
                        None \<Rightarrow> (\<lparr>channels = {||}, patterns = {||}\<rparr>, True)
                      | Some info \<Rightarrow> (info, ctx_force_dispatch cntx));
                   (S, sizes, pats) = gather_patterns to_add argv (patterns info0);
                   info1 = info0\<lparr>patterns := S\<rparr>;
                   (info2, force2) =
                     (if \<not> to_add \<and> IsEmpty_info info1 then (None, False)
                      else (Some info1, force0));
                   c1 = cntx\<lparr>subscribe_info := info2, ctx_force_dispatch := force2\<rparr>
               in (if to_reply then sizes else result0,
                   RunBriefInParallel n (pattern_cb to_add tid pats) (\<lambda>sid. True) c1)
             else (result0, cntx))
      in if to_reply then
           cntx1\<lparr>replies := replies cntx1
                     @ send_replies (if to_add then ''psubscribe'' else ''punsubscribe'') argv result\<rparr>
         else cntx1)"

subsection \<open>\<open>ConnectionContext::OnClose\<close>\<close>

text \<open>
  \<open>OnClose\<close> runs on the connection's thread while the tasks it posts run on the shard
  threads and publishers on any thread take and give back references to the connection.
  The model is a state machine driven by a schedule: each label of the schedule says who
  moves next. The state holds the context, the place \<open>OnClose\<close> has reached, the task
  posted to each shard and not yet run, the count of the borrow token and, for each
  shard, the channels and the patterns under which the shard's channel slice still lists
  this connection.
\<close>

datatype close_pc = Start | ChanTasks | ChanWait | PatCheck | PatTasks | PatWait | Done

record close_state =
  conn_cntx :: ConnectionContext
  pc :: close_pc
  todo :: "nat \<Rightarrow> slice_call list"
  registered_channels :: "nat \<Rightarrow> string fset"
  registered_patterns :: "nat \<Rightarrow> string fset"
  borrow_token :: nat

text \<open>
  Modelled from the spec: the channel slice of a shard is not under src. Per shard it maps
  a channel name, and a glob pattern, to the set of subscribers; adding a subscription
  inserts the connection under the name and removing one takes it out. The pair is the
  set of channels and the set of patterns under which one shard lists this connection.
\<close>

fun apply_call :: "slice_call \<Rightarrow> string fset \<times> string fset \<Rightarrow> string fset \<times> string fset" where
  "apply_call (AddSubscription ch tid) (cs, ps) = (finsert ch cs, ps)"
| "apply_call (RemoveSubscription ch) (cs, ps) = (cs |-| {|ch|}, ps)"
| "apply_call (AddGlobPattern pat tid) (cs, ps) = (cs, finsert pat ps)"
| "apply_call (RemoveGlobPattern pat) (cs, ps) = (cs, ps |-| {|pat|})"

text \<open>The calls a function has added, on one shard, to those recorded before it.\<close>

definition posted :: "ConnectionContext \<Rightarrow> ConnectionContext \<Rightarrow> nat \<Rightarrow> slice_call list" where
  "posted c c' sid = drop (length (slice_calls c sid)) (slice_calls c' sid)"

text \<open>
  One move of \<open>OnClose\<close> itself. \<open>order\<close> is the order in which the hash set is
  copied into the argument vector, used by the two moves that copy a set. Posting the
  tasks is one move; \<open>RunBriefInParallel\<close> returns, in a later move, once every shard
  has run its task. Modelled from the spec: \<open>token.Wait()\<close> (the blocking counter is
  not under src) returns once the count of the borrow token is zero. A move that cannot
  be made yet is \<open>None\<close>.
\<close>

definition OnClose_step ::
  "(string \<Rightarrow> nat) \<Rightarrow> nat \<Rightarrow> nat \<Rightarrow> string list \<Rightarrow> close_state \<Rightarrow> close_state option" where
  "OnClose_step shard_of n tid order s =
     (case pc s of
        Start \<Rightarrow>
          (case subscribe_info (conn_cntx s) of
             None \<Rightarrow> Some (s\<lparr>pc := Done\<rparr>)
           | Some info \<Rightarrow>
               if channels info \<noteq> {||} then
                 (if distinct order \<and> fset_of_list order = channels info then
                    let c' = ChangeSubscription shard_of n tid False False order (conn_cntx s)
                    in Some (s\<lparr>conn_cntx := c', todo := posted (conn_cntx s) c', pc := ChanTasks\<rparr>)
                  else None)
               else Some (s\<lparr>pc := PatCheck\<rparr>))
      | ChanTasks \<Rightarrow>
          if list_all (\<lambda>sid. todo s sid = []) [0..<n] then Some (s\<lparr>pc := ChanWait\<rparr>) else None
      | ChanWait \<Rightarrow>
          if borrow_token s = 0 then Some (s\<lparr>pc := PatCheck\<rparr>) else None
      | PatCheck \<Rightarrow>
          (case subscribe_info (conn_cntx s) of
             None \<Rightarrow> Some (s\<lparr>pc := Done\<rparr>)
           | Some info \<Rightarrow>
               if distinct order \<and> fset_of_list order = patterns info then
                 let c' = ChangePSub n tid False False order (conn_cntx s)
                 in Some (s\<lparr>conn_cntx := c', todo := posted (conn_cntx s) c', pc := PatTasks\<rparr>)
               else None)
      | PatTasks \<Rightarrow>
          if list_all (\<lambda>sid. todo s sid = []) [0..<n] then Some (s\<lparr>pc := PatWait\<rparr>) else None
      | PatWait \<Rightarrow>
          if borrow_token s = 0 then Some (s\<lparr>pc := Done\<rparr>) else None
      | Done \<Rightarrow> None)"

text \<open>
  The other moves. A shard runs the task posted to it, in one piece (a brief task on the
  shard's own thread). Modelled from the spec: the borrow token is incremented when a
  publisher takes a reference to the connection, which it finds in a channel slice, and
  decremented when the publisher's delivery has been handed off.
\<close>

datatype close_label =
    OnCloseMove "string list"
  | ShardTask nat
  | PublisherBorrow
  | PublisherRelease

fun close_step ::
  "(string \<Rightarrow> nat) \<Rightarrow> nat \<Rightarrow> nat \<Rightarrow> close_label \<Rightarrow> close_state \<Rightarrow> close_state option" where
  "close_step shard_of n tid (OnCloseMove order) s = OnClose_step shard_of n tid order s"
| "close_step shard_of n tid (ShardTask sid) s =
     (if sid < n \<and> todo s sid \<noteq> [] then
        let (cs, ps) = fold apply_call (todo s sid)
                         (registered_channels s sid, registered_patterns s sid)
        in Some (s\<lparr>registered_channels := (registered_channels s)(sid := cs),
                   registered_patterns := (registered_patterns s)(sid := ps),
                   todo := (todo s)(sid := [])\<rparr>)
      else None)"
| "close_step shard_of n tid PublisherBorrow s =
     (if list_ex (\<lambda>sid. registered_channels s sid \<noteq> {||} \<or> registered_patterns s sid \<noteq> {||})
           [0..<n]
      then Some (s\<lparr>borrow_token := borrow_token s + 1\<rparr>) else None)"
| "close_step shard_of n tid PublisherRelease s =
     (if borrow_token s > 0 then Some (s\<lparr>borrow_token := borrow_token s - 1\<rparr>) else None)"

fun run_close ::
  "(string \<Rightarrow> nat) \<Rightarrow> nat \<Rightarrow> nat \<Rightarrow> close_label list \<Rightarrow> close_state \<Rightarrow> close_state option" where
  "run_close shard_of n tid [] s = Some s"
| "run_close shard_of n tid (l # ls) s =
     (case close_step shard_of n tid l s of
        None \<Rightarrow> None
      | Some s' \<Rightarrow> run_close shard_of n tid ls s')"

section \<open>Notions used in the properties\<close>

subsection \<open>Concrete inputs\<close>

definition crlf :: string where
  "crlf = [CR, LF]"

definition ex_pmsg :: PubMessage where
  "ex_pmsg = \<lparr>pattern = [], channel = ''c1'', message = ''hi''\<rparr>"

definition ex_pub_req :: Request where
  "ex_pub_req = \<lparr>args = [], storage = [], async_msg = Some \<lparr>pub_msg = ex_pmsg, bc = 7\<rparr>\<rparr>"

definition ex_cmd_req :: Request where
  "ex_cmd_req = \<lparr>args = [''PING''], storage = ''PING'', async_msg = None\<rparr>"

definition ex_get_cmd :: MCCommand where
  "ex_get_cmd = \<lparr>is_store_cmd = False, bytes_len = 0\<rparr>"

definition ex_conn :: Connection where
  "ex_conn = \<lparr>dispatch_q = [], conn_closing = False, async_dispatch = False,
     force_dispatch = False, builder_error = False, io_buf = [], trace = []\<rparr>"

subsection \<open>The dispatch decision of the reader\<close>

text \<open>The condition under which the specification allows inline dispatch.\<close>

definition inline_allowed :: "nat \<Rightarrow> Connection \<Rightarrow> bool" where
  "inline_allowed consumed s \<longleftrightarrow>
     dispatch_q s = [] \<and> \<not> async_dispatch s \<and> \<not> force_dispatch s
     \<and> length (io_buf s) \<le> consumed"

subsection \<open>Pub/sub deliveries and their completion counters\<close>

text \<open>The reply the worker writes for a pub/sub message.\<close>

definition pub_reply :: "PubMessage \<Rightarrow> string list" where
  "pub_reply pm = (if pattern pm = [] then [''message'', channel pm, message pm]
                   else [''pmessage'', pattern pm, channel pm, message pm])"

subsection \<open>The worker's exit\<close>

text \<open>What the clean-up loop does for one request that was left in the queue.\<close>

definition leftover_events :: "Request \<Rightarrow> event list" where
  "leftover_events req =
     (case async_msg req of Some am \<Rightarrow> [BcDec (bc am), FreeAsyncMsg am] | None \<Rightarrow> [])
     @ [FreeRequest req]"

subsection \<open>The HTTP probe\<close>

text \<open>
  The test \<open>CheckForHttpProto\<close> applies to the bytes before the first line feed: at
  least ten of them, the last one a carriage return, and \<open>MatchHttp11Line\<close> on the
  rest.
\<close>

definition http_line :: "string \<Rightarrow> bool" where
  "http_line line \<longleftrightarrow>
     10 \<le> length line \<and> last line = CR
     \<and> StartsWith (butlast line) ''GET '' \<and> EndsWith (butlast line) ''HTTP/1.1''"

subsection \<open>Memory accounting of the string set\<close>

definition ex_set :: StringSet where
  "ex_set = \<lparr>entries = replicate 16 0, entries_capacity = 16, obj_malloc_used = 0,
     size_ = 0, num_chain_entries = 3, capacity_log = 4\<rparr>"

subsection \<open>The capacity of the read buffer\<close>

definition is_pow2 :: "nat \<Rightarrow> bool" where
  "is_pow2 n \<longleftrightarrow> (\<exists>k. n = 2 ^ k)"

text \<open>
  An instance of the buffer's \<open>Reserve\<close>: a request within the capacity changes
  nothing, a larger one is rounded up to the next power of two.
\<close>

function bit_ceil_from :: "nat \<Rightarrow> nat \<Rightarrow> nat" where
  "bit_ceil_from p n = (if p = 0 \<or> n \<le> p then p else bit_ceil_from (2 * p) n)"
  by pat_completeness auto

termination
  by (relation "measure (\<lambda>(p, n). n - p)") auto

declare bit_ceil_from.simps [simp del]

definition Reserve_pow2 :: "nat \<Rightarrow> nat \<Rightarrow> nat" where
  "Reserve_pow2 c n = (if n \<le> c then c else bit_ceil_from 1 n)"

subsection \<open>Subscriptions: the gathered channels and the shards' slices\<close>

text \<open>
  The sets the connection is subscribed to (empty while there is no subscription record),
  the set after a list of arguments has been processed one by one, and whether an argument
  changes a set.
\<close>

definition subscribed_channels :: "ConnectionContext \<Rightarrow> string fset" where
  "subscribed_channels cntx = (case subscribe_info cntx of None \<Rightarrow> {||} | Some info \<Rightarrow> channels info)"

definition subscribed_patterns :: "ConnectionContext \<Rightarrow> string fset" where
  "subscribed_patterns cntx = (case subscribe_info cntx of None \<Rightarrow> {||} | Some info \<Rightarrow> patterns info)"

definition subs_after :: "bool \<Rightarrow> string fset \<Rightarrow> string list \<Rightarrow> string fset" where
  "subs_after to_add S as = fold (\<lambda>a S. if to_add then finsert a S else S |-| {|a|}) as S"

definition changes :: "bool \<Rightarrow> string fset \<Rightarrow> string \<Rightarrow> bool" where
  "changes to_add S a = (if to_add then a |\<notin>| S else a |\<in>| S)"

text \<open>One acknowledgement: a 3-array of the action, the name and the count.\<close>

definition ack :: "string \<Rightarrow> string \<Rightarrow> nat \<Rightarrow> reply list" where
  "ack action name cnt = [StartArray 3, SendBulkString action, SendBulkString name, SendLong (int cnt)]"

text \<open>The call a shard's task makes for one channel, or for one pattern.\<close>

definition slice_call_of :: "bool \<Rightarrow> nat \<Rightarrow> string \<Rightarrow> slice_call" where
  "slice_call_of to_add tid ch = (if to_add then AddSubscription ch tid else RemoveSubscription ch)"

definition pattern_call_of :: "bool \<Rightarrow> nat \<Rightarrow> string \<Rightarrow> slice_call" where
  "pattern_call_of to_add tid pat = (if to_add then AddGlobPattern pat tid else RemoveGlobPattern pat)"

text \<open>
  The subscription record the function starts from (a new one when there is none), and
  what remains of a record after an unsubscription: nothing when it has become empty.
\<close>

definition info_after :: "bool \<Rightarrow> SubscribeInfo \<Rightarrow> SubscribeInfo option" where
  "info_after to_add info = (if \<not> to_add \<and> IsEmpty_info info then None else Some info)"

definition info_of :: "ConnectionContext \<Rightarrow> SubscribeInfo" where
  "info_of cntx = (case subscribe_info cntx of None \<Rightarrow> \<lparr>channels = {||}, patterns = {||}\<rparr>
                   | Some info \<Rightarrow> info)"

definition ex_cntx :: ConnectionContext where
  "ex_cntx = \<lparr>subscribe_info = None, ctx_force_dispatch = False, replies = [],
     slice_calls = (\<lambda>sid. [])\<rparr>"

definition ex_shard :: "string \<Rightarrow> nat" where
  "ex_shard ch = length ch mod 2"

definition ex_cntx_a :: ConnectionContext where
  "ex_cntx_a = ex_cntx\<lparr>subscribe_info := Some \<lparr>channels = {|''a''|}, patterns = {||}\<rparr>,
     ctx_force_dispatch := True\<rparr>"

subsection \<open>Closing a subscribed connection\<close>

text \<open>
  The channels and the patterns a task removes, and whether a call is a removal.
\<close>

fun removed_channels :: "slice_call list \<Rightarrow> string fset" where
  "removed_channels [] = {||}"
| "removed_channels (RemoveSubscription ch # calls) = finsert ch (removed_channels calls)"
| "removed_channels (c # calls) = removed_channels calls"

fun removed_patterns :: "slice_call list \<Rightarrow> string fset" where
  "removed_patterns [] = {||}"
| "removed_patterns (RemoveGlobPattern pat # calls) = finsert pat (removed_patterns calls)"
| "removed_patterns (c # calls) = removed_patterns calls"

fun is_removal :: "slice_call \<Rightarrow> bool" where
  "is_removal (RemoveSubscription ch) = True"
| "is_removal (RemoveGlobPattern pat) = True"
| "is_removal c = False"

text \<open>
  The invariant of the close path, for a connection that was subscribed to the channels
  \<open>C\<close> and the patterns \<open>P\<close> when \<open>OnClose\<close> began: what the context, the
  shards' registries, the pending tasks and the borrow token look like at each place of
  \<open>OnClose\<close>.
\<close>

definition chan_logged :: "(string \<Rightarrow> nat) \<Rightarrow> string fset \<Rightarrow> close_state \<Rightarrow> bool" where
  "chan_logged sh C s \<longleftrightarrow>
     (\<forall>ch. ch |\<in>| C \<longrightarrow> RemoveSubscription ch \<in> set (slice_calls (conn_cntx s) (sh ch)))"

definition pat_logged :: "nat \<Rightarrow> string fset \<Rightarrow> close_state \<Rightarrow> bool" where
  "pat_logged n P s \<longleftrightarrow>
     (\<forall>p sid. p |\<in>| P \<and> sid < n \<longrightarrow> RemoveGlobPattern p \<in> set (slice_calls (conn_cntx s) sid))"

definition info_left :: "string fset \<Rightarrow> SubscribeInfo option" where
  "info_left P = (if P = {||} then None else Some \<lparr>channels = {||}, patterns = P\<rparr>)"

definition close_inv ::
  "(string \<Rightarrow> nat) \<Rightarrow> nat \<Rightarrow> string fset \<Rightarrow> string fset \<Rightarrow> close_state \<Rightarrow> bool" where
  "close_inv sh n C P s \<longleftrightarrow>
     (case pc s of
        Start \<Rightarrow>
          subscribe_info (conn_cntx s) = Some \<lparr>channels = C, patterns = P\<rparr>
          \<and> (\<forall>sid<n. registered_channels s sid = ffilter (\<lambda>ch. sh ch = sid) C
                \<and> registered_patterns s sid = P \<and> todo s sid = [])
      | ChanTasks \<Rightarrow>
          subscribe_info (conn_cntx s) = info_left P
          \<and> (\<forall>sid<n. registered_channels s sid = removed_channels (todo s sid)
                \<and> removed_patterns (todo s sid) = {||}
                \<and> list_all is_removal (todo s sid)
                \<and> registered_patterns s sid = P)
          \<and> chan_logged sh C s
      | ChanWait \<Rightarrow>
          subscribe_info (conn_cntx s) = info_left P
          \<and> (\<forall>sid<n. registered_channels s sid = {||}
                \<and> registered_patterns s sid = P \<and> todo s sid = [])
          \<and> chan_logged sh C s
      | PatCheck \<Rightarrow>
          subscribe_info (conn_cntx s) = info_left P
          \<and> (\<forall>sid<n. registered_channels s sid = {||}
                \<and> registered_patterns s sid = P \<and> todo s sid = [])
          \<and> chan_logged sh C s
          \<and> (P = {||} \<longrightarrow> borrow_token s = 0)
      | PatTasks \<Rightarrow>
          subscribe_info (conn_cntx s) = None
          \<and> (\<forall>sid<n. registered_channels s sid = {||}
                \<and> registered_patterns s sid = removed_patterns (todo s sid)
                \<and> removed_channels (todo s sid) = {||}
                \<and> list_all is_removal (todo s sid))
          \<and> chan_logged sh C s \<and> pat_logged n P s
      | PatWait \<Rightarrow>
          subscribe_info (conn_cntx s) = None
          \<and> (\<forall>sid<n. registered_channels s sid = {||}
                \<and> registered_patterns s sid = {||} \<and> todo s sid = [])
          \<and> chan_logged sh C s \<and> pat_logged n P s
      | Done \<Rightarrow>
          subscribe_info (conn_cntx s) = None
          \<and> (\<forall>sid<n. registered_channels s sid = {||}
                \<and> registered_patterns s sid = {||} \<and> todo s sid = [])
          \<and> chan_logged sh C s \<and> pat_logged n P s
          \<and> borrow_token s = 0)"

text \<open>
  A concrete close: two shards, one channel on shard 1, one pattern, one publisher
  holding a reference when \<open>OnClose\<close> begins and another taking one through the
  pattern in between.
\<close>

definition ex_close_cntx :: ConnectionContext where
  "ex_close_cntx = \<lparr>subscribe_info = Some \<lparr>channels = {|''a''|}, patterns = {|''p*''|}\<rparr>,
     ctx_force_dispatch = True, replies = [], slice_calls = (\<lambda>sid. [])\<rparr>"

definition ex_close0 :: close_state where
  "ex_close0 = \<lparr>conn_cntx = ex_close_cntx,
     pc = Start, todo = (\<lambda>sid. []),
     registered_channels = (\<lambda>sid. if sid = 1 then {|''a''|} else {||}),
     registered_patterns = (\<lambda>sid. if sid < 2 then {|''p*''|} else {||}),
     borrow_token = 1\<rparr>"

definition ex_schedule :: "close_label list" where
  "ex_schedule = [OnCloseMove [''a''], ShardTask 1, OnCloseMove [], PublisherRelease,
     OnCloseMove [], PublisherBorrow, OnCloseMove [''p*''], ShardTask 0, ShardTask 1,
     OnCloseMove [], PublisherRelease, OnCloseMove []]"

definition ex_close_cntx1 :: ConnectionContext where
  "ex_close_cntx1 = ChangeSubscription ex_shard 2 0 False False [''a''] ex_close_cntx"

section \<open>Properties\<close>

subsection \<open>The dispatch decision of the reader\<close>

text \<open>
  C1 does not hold as stated: on the memcache path \<open>get a\<close> followed in the same buffer
  by \<open>get b\<close> is dispatched inline although the parser has consumed 7 of the 14 buffered
  bytes, because \<open>ParseMemcache\<close> tests the queue and \<open>async_dispatch\<close> only.
\<close>

theorem memcache_inline_ignores_pipelining_counterexample:
  "dispatch_q (ex_conn\<lparr>io_buf := ''get a'' @ crlf @ ''get b'' @ crlf\<rparr>) = []
   \<and> \<not> async_dispatch (ex_conn\<lparr>io_buf := ''get a'' @ crlf @ ''get b'' @ crlf\<rparr>)
   \<and> \<not> force_dispatch (ex_conn\<lparr>io_buf := ''get a'' @ crlf @ ''get b'' @ crlf\<rparr>)
   \<and> \<not> inline_allowed 7 (ex_conn\<lparr>io_buf := ''get a'' @ crlf @ ''get b'' @ crlf\<rparr>)
   \<and> ParseMemcache_body MC_OK 7 ex_get_cmd [] (ex_conn\<lparr>io_buf := ''get a'' @ crlf @ ''get b'' @ crlf\<rparr>) =
       (Continue, [], ex_conn\<lparr>io_buf := ''get b'' @ crlf, trace := [DispatchMC ex_get_cmd []]\<rparr>)"
  by (simp add: ParseMemcache_body_def ConsumeInput_def emit_def inline_allowed_def ex_conn_def
      ex_get_cmd_def crlf_def Let_def)

text \<open>
  C1, amended. On the RESP path a parsed, non-empty command is dispatched inline (the
  executor is called, the queue is left alone) if and only if the queue is empty,
  \<open>async_dispatch\<close> and \<open>force_dispatch\<close> are false and the parser has consumed all
  buffered bytes; otherwise its arguments are copied into a new request that is appended
  to the queue, the worker being notified when that request is the only one queued (and
  the reader yielding when more than ten are). On the memcache path a command is
  dispatched inline whenever the queue is empty and \<open>async_dispatch\<close> is false, whatever
  \<open>force_dispatch\<close> and the unconsumed bytes are.
\<close>

theorem reader_dispatch_decision:
  assumes "parse_args \<noteq> []"
    and "those (map GetBuf parse_args) = Some cmd"
    and "dispatch_q sm = []"
    and "\<not> async_dispatch sm"
    and "is_store_cmd mc \<longrightarrow> consumed_mc + (bytes_len mc + 2) \<le> length (io_buf sm)"
  shows "(\<exists>s'. ParseRedis_body Redis_OK consumed parse_args s = Some s'
            \<and> io_buf s' = drop consumed (io_buf s)
            \<and> ((trace s' = trace s @ [DispatchCommand cmd] \<and> dispatch_q s' = dispatch_q s)
                 = inline_allowed consumed s)
            \<and> (\<not> inline_allowed consumed s \<longrightarrow>
                 dispatch_q s' = dispatch_q s @ [\<lparr>args = cmd, storage = concat cmd, async_msg = None\<rparr>]
                 \<and> trace s' = trace s @ (if dispatch_q s = [] then [Notify]
                                          else if 10 \<le> length (dispatch_q s) then [Yield] else [])))
       \<and> (case ParseMemcache_body MC_OK consumed_mc mc val sm of
            (ctl, val', sm') \<Rightarrow>
               dispatch_q sm' = [] \<and> trace sm' = trace sm @ [DispatchMC mc val'])"
proof -
  have mc: "case ParseMemcache_body MC_OK consumed_mc mc val sm of
            (ctl, val', sm') \<Rightarrow>
               dispatch_q sm' = [] \<and> trace sm' = trace sm @ [DispatchMC mc val']"
    using assms(3,4,5)
    by (simp add: ParseMemcache_body_def ConsumeInput_def emit_def Let_def)
  have resp: "\<exists>s'. ParseRedis_body Redis_OK consumed parse_args s = Some s'
            \<and> io_buf s' = drop consumed (io_buf s)
            \<and> ((trace s' = trace s @ [DispatchCommand cmd] \<and> dispatch_q s' = dispatch_q s)
                 = inline_allowed consumed s)
            \<and> (\<not> inline_allowed consumed s \<longrightarrow>
                 dispatch_q s' = dispatch_q s @ [\<lparr>args = cmd, storage = concat cmd, async_msg = None\<rparr>]
                 \<and> trace s' = trace s @ (if dispatch_q s = [] then [Notify]
                                          else if 10 \<le> length (dispatch_q s) then [Yield] else []))"
  proof (cases "inline_allowed consumed s")
    case True
    then show ?thesis using assms(1,2)
      by (simp add: ParseRedis_body_def RespToArgList_def ConsumeInput_def emit_def
          inline_allowed_def)
  next
    case False
    then show ?thesis using assms(1,2)
      by (auto simp: ParseRedis_body_def FromArgs_def ConsumeInput_def emit_def
          push_request_def inline_allowed_def Let_def)
  qed
  from resp mc show ?thesis by blast
qed

theorem reader_dispatch_decision_witness:
  "[STRING ''PING''] \<noteq> []
   \<and> those (map GetBuf [STRING ''PING'']) = Some [''PING'']
   \<and> dispatch_q (ex_conn\<lparr>io_buf := ''get a'' @ crlf @ ''get b'' @ crlf\<rparr>) = []
   \<and> \<not> async_dispatch (ex_conn\<lparr>io_buf := ''get a'' @ crlf @ ''get b'' @ crlf\<rparr>)
   \<and> ParseRedis_body Redis_OK 6 [STRING ''PING''] (ex_conn\<lparr>io_buf := ''PING'' @ crlf\<rparr>) =
       Some (ex_conn\<lparr>trace := [DispatchCommand [''PING'']]\<rparr>)
   \<and> ParseRedis_body Redis_OK 6 [STRING ''PING''] (ex_conn\<lparr>io_buf := ''PING'' @ crlf @ ''PING'' @ crlf\<rparr>) =
       Some (ex_conn\<lparr>dispatch_q := [ex_cmd_req], io_buf := ''PING'' @ crlf, trace := [Notify]\<rparr>)
   \<and> ParseMemcache_body MC_OK 7 ex_get_cmd [] (ex_conn\<lparr>io_buf := ''get a'' @ crlf @ ''get b'' @ crlf\<rparr>) =
       (Continue, [], ex_conn\<lparr>io_buf := ''get b'' @ crlf, trace := [DispatchMC ex_get_cmd []]\<rparr>)"
proof -
  have a: "[STRING ''PING''] \<noteq> []" by simp
  have b: "those (map GetBuf [STRING ''PING'']) = Some [''PING'']" by simp
  have c: "dispatch_q (ex_conn\<lparr>io_buf := ''get a'' @ crlf @ ''get b'' @ crlf\<rparr>) = []"
    by (simp add: ex_conn_def)
  have d: "\<not> async_dispatch (ex_conn\<lparr>io_buf := ''get a'' @ crlf @ ''get b'' @ crlf\<rparr>)"
    by (simp add: ex_conn_def)
  have e: "is_store_cmd ex_get_cmd \<longrightarrow>
     7 + (bytes_len ex_get_cmd + 2)
       \<le> length (io_buf (ex_conn\<lparr>io_buf := ''get a'' @ crlf @ ''get b'' @ crlf\<rparr>))"
    by (simp add: ex_get_cmd_def)
  from reader_dispatch_decision [OF a b c d e, of 6 "ex_conn\<lparr>io_buf := ''PING'' @ crlf\<rparr>" "[]"]
    reader_dispatch_decision [OF a b c d e, of 6 "ex_conn\<lparr>io_buf := ''PING'' @ crlf @ ''PING'' @ crlf\<rparr>" "[]"]
    a b c d
  show ?thesis
    by (simp add: ParseRedis_body_def ParseMemcache_body_def RespToArgList_def FromArgs_def
        ConsumeInput_def push_request_def emit_def ex_conn_def ex_cmd_req_def ex_get_cmd_def
        crlf_def Let_def)
qed

subsection \<open>Pub/sub deliveries and their completion counters\<close>

text \<open>
  C2 does not hold as stated: on an open connection \<open>Connection::SendMsgVecAsync\<close>
  returns without having decremented the counter, and the worker decrements it after
  \<open>SendStringArr\<close> has written the reply.
\<close>

theorem pubsub_counter_at_handoff_counterexample:
  "BcDec 7 \<notin> set (trace (SendMsgVecAsync ex_pmsg 7 ex_conn))
   \<and> map_option trace (DispatchFiber_serve (SendMsgVecAsync ex_pmsg 7 ex_conn)) =
       Some [Notify, SendStringArr [''message'', ''c1'', ''hi''], BcDec 7,
             FreeAsyncMsg \<lparr>pub_msg = ex_pmsg, bc = 7\<rparr>, FreeRequest ex_pub_req]"
  by (simp add: SendMsgVecAsync_def DispatchFiber_serve_def emit_def ex_conn_def ex_pmsg_def
      ex_pub_req_def Let_def)

text \<open>
  C2, amended. On an open connection \<open>Connection::SendMsgVecAsync\<close> appends a request
  that carries the message and the counter, and leaves the counter alone; the dispatch
  worker decrements the counter right after it has written the message (or pmessage)
  reply of that request. Only the test connection's \<open>SendMsgVecAsync\<close> copies channel,
  message and non-empty pattern into strings of its own and decrements the counter before
  it returns.
\<close>

theorem pubsub_counter_falls_after_write:
  assumes "\<not> conn_closing s"
  shows "(let am = \<lparr>pub_msg = pmsg, bc = b\<rparr>;
             req = \<lparr>args = [], storage = [], async_msg = Some am\<rparr>;
             s1 = SendMsgVecAsync pmsg b s
         in dispatch_q s1 = dispatch_q s @ [req]
          \<and> trace s1 = trace s @ (if dispatch_q s = [] then [Notify] else [])
          \<and> (\<forall>w q. dispatch_q w = req # q \<longrightarrow>
                DispatchFiber_serve w =
                  Some (w\<lparr>dispatch_q := q,
                         trace := trace w @ [SendStringArr (pub_reply pmsg), BcDec b,
                                             FreeAsyncMsg am, FreeRequest req]\<rparr>)))
       \<and> Test_SendMsgVecAsync pmsg b t =
           t\<lparr>backing_str := backing_str t @ [channel pmsg, message pmsg]
                                @ (if pattern pmsg = [] then [] else [pattern pmsg]),
              messages := messages t @ [pmsg],
              test_trace := test_trace t @ [BcDec b]\<rparr>"
  using assms
  by (auto simp: SendMsgVecAsync_def DispatchFiber_serve_def Test_SendMsgVecAsync_def emit_def
      pub_reply_def Let_def)

theorem pubsub_counter_falls_after_write_witness:
  "\<not> conn_closing ex_conn
   \<and> dispatch_q (SendMsgVecAsync ex_pmsg 7 ex_conn) = [ex_pub_req]
   \<and> trace (SendMsgVecAsync ex_pmsg 7 ex_conn) = [Notify]
   \<and> DispatchFiber_serve (SendMsgVecAsync ex_pmsg 7 ex_conn) =
       Some (ex_conn\<lparr>trace := [Notify, SendStringArr [''message'', ''c1'', ''hi''], BcDec 7,
                FreeAsyncMsg \<lparr>pub_msg = ex_pmsg, bc = 7\<rparr>, FreeRequest ex_pub_req]\<rparr>)"
proof -
  have c: "\<not> conn_closing ex_conn" by (simp add: ex_conn_def)
  from pubsub_counter_falls_after_write [OF c, of ex_pmsg 7] c show ?thesis
    by (simp add: Let_def ex_conn_def ex_pub_req_def ex_pmsg_def pub_reply_def
        SendMsgVecAsync_def emit_def)
qed

subsection \<open>The worker's exit\<close>

lemma DispatchFiber_cleanup_effect:
  "dispatch_q s = q \<Longrightarrow>
   DispatchFiber_cleanup s = s\<lparr>dispatch_q := [], trace := trace s @ concat (map leftover_events q)\<rparr>"
proof (induction q arbitrary: s)
  case Nil
  then show ?case by (subst DispatchFiber_cleanup.simps) simp
next
  case (Cons req q)
  show ?case
    apply (subst DispatchFiber_cleanup.simps)
    using Cons.prems
    apply (simp add: Let_def)
    apply (subst Cons.IH)
     apply (simp add: emit_def split: option.splits)
    apply (simp add: emit_def leftover_events_def split: option.splits)
    done
qed

lemma DispatchFiber_loop_exit:
  "DispatchFiber_loop env s = Some s1 \<Longrightarrow> builder_error s1 \<or> conn_closing s1"
proof (induction env s rule: DispatchFiber_loop.induct)
  case (1 env s)
  from "1.prems" "1.IH" show ?case
    apply (subst (asm) DispatchFiber_loop.simps)
    apply (auto split: if_splits option.splits list.splits prod.splits)
    done
qed

text \<open>
  C5. Whenever the dispatch worker returns, it has left its main loop on a writer error
  or on the closing flag, and then every request that was still in the queue has been
  freed, in order, the completion counter of every pub/sub request among them has been
  decremented once, the queue is empty and the closing flag is set.
\<close>

theorem DispatchFiber_frees_leftovers:
  assumes "DispatchFiber env s = Some s'"
  shows "\<exists>s1. DispatchFiber_loop env s = Some s1
            \<and> (builder_error s1 \<or> conn_closing s1)
            \<and> conn_closing s'
            \<and> dispatch_q s' = []
            \<and> trace s' = trace s1 @ concat (map leftover_events (dispatch_q s1))"
proof -
  from assms obtain s1 where l: "DispatchFiber_loop env s = Some s1"
    and r: "s' = DispatchFiber_cleanup (s1\<lparr>conn_closing := True\<rparr>)"
    by (auto simp: DispatchFiber_def split: option.splits)
  have "s' = (s1\<lparr>conn_closing := True\<rparr>)\<lparr>dispatch_q := [],
      trace := trace s1 @ concat (map leftover_events (dispatch_q s1))\<rparr>"
    unfolding r by (subst DispatchFiber_cleanup_effect[where q = "dispatch_q s1"]) simp_all
  then show ?thesis using l DispatchFiber_loop_exit[OF l] by simp
qed

theorem DispatchFiber_frees_leftovers_witness:
  "DispatchFiber [[EnvClose]] (ex_conn\<lparr>dispatch_q := [ex_cmd_req, ex_pub_req]\<rparr>) =
     Some (ex_conn\<lparr>conn_closing := True,
        trace := [SetBatchMode True, DispatchCommand [''PING''], FreeRequest ex_cmd_req, Notify,
                  BcDec 7, FreeAsyncMsg \<lparr>pub_msg = ex_pmsg, bc = 7\<rparr>, FreeRequest ex_pub_req]\<rparr>)
   \<and> (\<exists>s1. DispatchFiber_loop [[EnvClose]] (ex_conn\<lparr>dispatch_q := [ex_cmd_req, ex_pub_req]\<rparr>) = Some s1
        \<and> dispatch_q s1 = [ex_pub_req] \<and> conn_closing s1)"
proof -
  have run: "DispatchFiber [[EnvClose]] (ex_conn\<lparr>dispatch_q := [ex_cmd_req, ex_pub_req]\<rparr>) =
     Some (ex_conn\<lparr>conn_closing := True,
        trace := [SetBatchMode True, DispatchCommand [''PING''], FreeRequest ex_cmd_req, Notify,
                  BcDec 7, FreeAsyncMsg \<lparr>pub_msg = ex_pmsg, bc = 7\<rparr>, FreeRequest ex_pub_req]\<rparr>)"
    by (simp add: DispatchFiber_def DispatchFiber_loop.simps DispatchFiber_serve_def
      DispatchFiber_cleanup.simps emit_def ex_conn_def ex_cmd_req_def ex_pub_req_def Let_def)
  from DispatchFiber_frees_leftovers [OF run] run show ?thesis
    by (simp add: DispatchFiber_loop.simps DispatchFiber_serve_def emit_def ex_conn_def
        ex_cmd_req_def ex_pub_req_def Let_def)
qed

subsection \<open>A delivery to a closing connection\<close>

text \<open>
  C10. When \<open>SendMsgVecAsync\<close> is called on a connection whose closing flag is set, it
  decrements the completion counter once and returns: nothing is appended to the queue
  (so the worker never writes the message), the worker is not notified, and nothing else
  of the connection changes.
\<close>

theorem SendMsgVecAsync_on_closing:
  assumes "conn_closing s"
  shows "SendMsgVecAsync pmsg b s = s\<lparr>trace := trace s @ [BcDec b]\<rparr>
       \<and> dispatch_q (SendMsgVecAsync pmsg b s) = dispatch_q s
       \<and> count_list (trace (SendMsgVecAsync pmsg b s)) (BcDec b) = count_list (trace s) (BcDec b) + 1
       \<and> count_list (trace (SendMsgVecAsync pmsg b s)) Notify = count_list (trace s) Notify"
  using assms by (simp add: SendMsgVecAsync_def emit_def)

theorem SendMsgVecAsync_on_closing_witness:
  "conn_closing (ex_conn\<lparr>conn_closing := True\<rparr>)
   \<and> SendMsgVecAsync ex_pmsg 7 (ex_conn\<lparr>conn_closing := True\<rparr>) =
       ex_conn\<lparr>conn_closing := True, trace := [BcDec 7]\<rparr>"
proof -
  have c: "conn_closing (ex_conn\<lparr>conn_closing := True\<rparr>)" by simp
  from SendMsgVecAsync_on_closing [OF c, of ex_pmsg 7] c show ?thesis
    by (simp add: ex_conn_def)
qed

subsection \<open>The HTTP probe\<close>

lemma sv_find_None: "sv_find c xs = None \<longleftrightarrow> c \<notin> set xs"
  by (induction xs) auto











text \<open>
  A first line of 266 bytes that passes the test of \<open>http_line\<close>: after the first 256
  bytes the buffer is full, the line feed is never read, and the probe hands the
  connection to neither path, whatever the socket answers next.
\<close>

lemma http_probe_long_first_line:
  "http_line (''GET /'' @ replicate 251 (CHR ''a'') @ '' HTTP/1.1'' @ [CR])
   \<and> HandleRequests_route True
        [RecvBytes (''GET /'' @ replicate 251 (CHR ''a'')),
         RecvBytes ('' HTTP/1.1'' @ [CR, LF])] = None
   \<and> HandleRequests_route True
        [RecvBytes (''GET /'' @ replicate 251 (CHR ''a'')),
         RecvBytes ('' HTTP/1.1'' @ [CR, LF]), RecvError 103] = Some (NoFlow 103)"
proof -
  have tk: "take kMinReadSize (''GET /'' @ replicate 251 (CHR ''a''))
         = ''GET /'' @ replicate 251 (CHR ''a'')"
    by (simp add: kMinReadSize_def)
  have nolf: "sv_find LF (''GET /'' @ replicate 251 (CHR ''a'')) = None"
    by (simp add: sv_find_None LF_def)
  have len: "length (''GET /'' @ replicate 251 (CHR ''a'')) = 256" by simp
  have hl: "http_line (''GET /'' @ replicate 251 (CHR ''a'') @ '' HTTP/1.1'' @ [CR])"
    by (simp add: http_line_def StartsWith_def EndsWith_def CR_def butlast_append)
  have step: "CheckForHttpProto_loop (RecvBytes (''GET /'' @ replicate 251 (CHR ''a'')) # rs)
        0 kMinReadSize [] =
      CheckForHttpProto_loop rs 256 kMinReadSize (''GET /'' @ replicate 251 (CHR ''a''))" for rs
    using nolf len
    by (simp only: CheckForHttpProto_loop.simps recv.case Let_def list.size append_Nil
        minus_nat.diff_0 tk drop_0 option.case) simp
  have full: "CheckForHttpProto_loop (RecvBytes bytes # rs) 256 kMinReadSize
        (''GET /'' @ replicate 251 (CHR ''a'')) =
      CheckForHttpProto_loop rs 256 kMinReadSize (''GET /'' @ replicate 251 (CHR ''a''))"
    for bytes rs
    using nolf len by (simp add: kMinReadSize_def Let_def)
  show ?thesis
    unfolding HandleRequests_route_def CheckForHttpProto_def step full
    using hl by simp
qed

subsection \<open>Memory accounting of the string set\<close>

text \<open>
  C7. For every state of the set whose table is a vector the implementation can hold,
  \<open>set_malloc_used()\<close> is the number of chained entries plus the capacity of the table,
  times the eight bytes of a slot; the computation does not wrap around.
\<close>

theorem set_malloc_used_formula:
  assumes "unat (entries_capacity s) \<le> vector_max_size"
  shows "unat (set_malloc_used s) = (unat (num_chain_entries s) + unat (entries_capacity s)) * 8"
proof -
  have n: "unat (num_chain_entries s) < 2 ^ 32"
    using unsigned_less [of "num_chain_entries s"] by simp
  have c: "unat (entries_capacity s) < 2 ^ 60"
    using assms by (simp add: vector_max_size_def)
  define w where "w = (ucast (num_chain_entries s) :: 64 word) + entries_capacity s"
  from n have "unat (num_chain_entries s) < 2 ^ 64" by simp
  then have u: "unat (ucast (num_chain_entries s) :: 64 word) = unat (num_chain_entries s)"
    by (simp add: unsigned_ucast_eq take_bit_nat_eq_self)
  have w: "unat w = unat (num_chain_entries s) + unat (entries_capacity s)"
    unfolding w_def using n c by (simp add: unat_word_ariths u)
  have "unat (w * 8) = unat w * 8 mod 2 ^ 64"
    by (simp add: unat_word_ariths)
  also have "\<dots> = unat w * 8"
    using n c w by simp
  finally show ?thesis
    using w by (simp add: set_malloc_used_def sizeof_SuperPtr_def w_def)
qed

theorem set_malloc_used_formula_witness:
  "unat (entries_capacity ex_set) \<le> vector_max_size
   \<and> unat (set_malloc_used ex_set) = 152"
proof -
  have h: "unat (entries_capacity ex_set) \<le> vector_max_size"
    by (simp add: ex_set_def vector_max_size_def)
  from set_malloc_used_formula [OF h] h show ?thesis
    by (simp add: ex_set_def)
qed

subsection \<open>The capacity of the read buffer\<close>

lemma pow2_double_le:
  assumes "is_pow2 p" and "p < 2 ^ k"
  shows "2 * p \<le> 2 ^ k"
proof -
  from assms(1) obtain j where j: "p = 2 ^ j" by (auto simp: is_pow2_def)
  with assms(2) have "j < k" by simp
  then have "Suc j \<le> k" by simp
  then have "(2::nat) ^ Suc j \<le> 2 ^ k" by (rule power_increasing) simp
  with j show ?thesis by simp
qed

lemma bit_ceil_from_pow2: "is_pow2 p \<Longrightarrow> is_pow2 (bit_ceil_from p n)"
proof (induction p n rule: bit_ceil_from.induct)
  case (1 p n)
  show ?case
  proof (cases "p = 0 \<or> n \<le> p")
    case True
    then show ?thesis using "1.prems" by (subst bit_ceil_from.simps) simp
  next
    case False
    from "1.prems" obtain j where "p = 2 ^ j" by (auto simp: is_pow2_def)
    then have "2 * p = 2 ^ Suc j" by simp
    then have "is_pow2 (2 * p)" unfolding is_pow2_def by blast
    with False "1.IH" show ?thesis by (subst bit_ceil_from.simps) simp
  qed
qed

lemma bit_ceil_from_ge: "0 < p \<Longrightarrow> n \<le> bit_ceil_from p n"
proof (induction p n rule: bit_ceil_from.induct)
  case (1 p n)
  show ?case
  proof (cases "n \<le> p")
    case True
    then show ?thesis by (subst bit_ceil_from.simps) simp
  next
    case False
    with "1.prems" "1.IH" show ?thesis by (subst bit_ceil_from.simps) simp
  qed
qed

lemma bit_ceil_from_le:
  "is_pow2 p \<Longrightarrow> p \<le> 2 ^ k \<Longrightarrow> n \<le> 2 ^ k \<Longrightarrow> bit_ceil_from p n \<le> 2 ^ k"
proof (induction p n rule: bit_ceil_from.induct)
  case (1 p n)
  show ?case
  proof (cases "p = 0 \<or> n \<le> p")
    case True
    then show ?thesis using "1.prems" by (subst bit_ceil_from.simps) simp
  next
    case False
    then have "p < 2 ^ k" using "1.prems" by simp
    then have le: "2 * p \<le> 2 ^ k" using "1.prems"(1) by (intro pow2_double_le)
    from "1.prems"(1) obtain j where "p = 2 ^ j" by (auto simp: is_pow2_def)
    then have "2 * p = 2 ^ Suc j" by simp
    then have "is_pow2 (2 * p)" unfolding is_pow2_def by blast
    with False le "1.IH" "1.prems" show ?thesis by (subst bit_ceil_from.simps) simp
  qed
qed

lemma kMaxReadSize_pow2: "kMaxReadSize = 2 ^ 15"
  by (simp add: kMaxReadSize_def)

lemma Reserve_pow2_grows: "c \<le> Reserve_pow2 c n"
  using bit_ceil_from_ge [of 1 n] by (simp add: Reserve_pow2_def)

lemma Reserve_pow2_bound:
  assumes "is_pow2 c" and "c \<le> kMaxReadSize" and "n \<le> kMaxReadSize"
  shows "is_pow2 (Reserve_pow2 c n) \<and> Reserve_pow2 c n \<le> kMaxReadSize"
proof -
  have one: "is_pow2 1" unfolding is_pow2_def by (rule exI [of _ 0]) simp
  have "bit_ceil_from 1 n \<le> 2 ^ 15"
    using assms(3) one by (intro bit_ceil_from_le) (simp_all add: kMaxReadSize_pow2)
  then show ?thesis
    using assms bit_ceil_from_pow2 [OF one, of n]
    by (simp add: Reserve_pow2_def kMaxReadSize_pow2)
qed

lemma IoLoop_need_more_inv:
  assumes grows: "\<And>c n. c \<le> reserve c n"
    and bound: "\<And>c n. is_pow2 c \<Longrightarrow> c \<le> kMaxReadSize \<Longrightarrow> n \<le> kMaxReadSize
                  \<Longrightarrow> is_pow2 (reserve c n) \<and> reserve c n \<le> kMaxReadSize"
    and inv: "is_pow2 c" "kMinReadSize \<le> c" "c \<le> kMaxReadSize"
  shows "is_pow2 (IoLoop_need_more reserve c hint a r)
       \<and> kMinReadSize \<le> IoLoop_need_more reserve c hint a r
       \<and> IoLoop_need_more reserve c hint a r \<le> kMaxReadSize"
proof -
  have req: "is_pow2 (reserve c n) \<and> kMinReadSize \<le> reserve c n \<and> reserve c n \<le> kMaxReadSize"
    if "n \<le> kMaxReadSize" for n
    using bound [OF inv(1) inv(3) that] grows [of c n] inv(2) by simp
  have dbl: "c * 2 \<le> kMaxReadSize" if "c < kMaxReadSize"
    using pow2_double_le [OF inv(1), of 15] that by (simp add: kMaxReadSize_pow2 mult.commute)
  consider (hint) "c < kMaxReadSize" "c < hint"
    | (double) "c < kMaxReadSize" "\<not> c < hint" "a = r \<and> c div 2 < a"
    | (keep) "\<not> c < kMaxReadSize \<or> (\<not> c < hint \<and> \<not> (a = r \<and> c div 2 < a))"
    by blast
  then show ?thesis
  proof cases
    case hint
    then have "IoLoop_need_more reserve c hint a r = reserve c (min kMaxReadSize hint)"
      by (simp add: IoLoop_need_more_def)
    then show ?thesis using req [of "min kMaxReadSize hint"] by simp
  next
    case double
    then have "IoLoop_need_more reserve c hint a r = reserve c (c * 2)"
      by (simp add: IoLoop_need_more_def)
    then show ?thesis using req [OF dbl [OF double(1)]] by simp
  next
    case keep
    then have "IoLoop_need_more reserve c hint a r = c"
      by (auto simp: IoLoop_need_more_def)
    then show ?thesis using inv by simp
  qed
qed

lemma capacity_after_inv:
  assumes grows: "\<And>c n. c \<le> reserve c n"
    and bound: "\<And>c n. is_pow2 c \<Longrightarrow> c \<le> kMaxReadSize \<Longrightarrow> n \<le> kMaxReadSize
                  \<Longrightarrow> is_pow2 (reserve c n) \<and> reserve c n \<le> kMaxReadSize"
  shows "is_pow2 c \<Longrightarrow> kMinReadSize \<le> c \<Longrightarrow> c \<le> kMaxReadSize \<Longrightarrow>
         kMinReadSize \<le> capacity_after reserve reads c
         \<and> capacity_after reserve reads c \<le> kMaxReadSize"
proof (induction reads arbitrary: c)
  case Nil
  then show ?case by simp
next
  case (Cons rd reads)
  obtain hint a r where rd: "rd = (hint, a, r)" by (cases rd) auto
  have step: "is_pow2 (IoLoop_need_more reserve c hint a r)
       \<and> kMinReadSize \<le> IoLoop_need_more reserve c hint a r
       \<and> IoLoop_need_more reserve c hint a r \<le> kMaxReadSize"
    using grows bound Cons.prems by (rule IoLoop_need_more_inv)
  then show ?case using Cons.IH [of "IoLoop_need_more reserve c hint a r"] rd by simp
qed

text \<open>
  C8, amended. The read buffer starts with 256 bytes. On \<open>NEED_MORE\<close> with a capacity
  below 32 KiB the reader asks the buffer for the smaller of 32 KiB and the parser's hint
  when the hint exceeds the capacity; otherwise for twice the capacity, but only when the
  last read filled the whole append buffer and that buffer was larger than half the
  capacity; otherwise, and at 32 KiB, the capacity is left as it is. Provided the buffer's
  \<open>Reserve\<close> never shrinks it, keeps its capacity a power of two and stays within
  32 KiB for a request within 32 KiB, the capacity is at least 256 bytes and at most
  32 KiB after any series of such reads.
\<close>

theorem read_buffer_growth:
  assumes "\<And>c n. c \<le> reserve c n"
    and "\<And>c n. is_pow2 c \<Longrightarrow> c \<le> kMaxReadSize \<Longrightarrow> n \<le> kMaxReadSize
            \<Longrightarrow> is_pow2 (reserve c n) \<and> reserve c n \<le> kMaxReadSize"
  shows "kMinReadSize \<le> capacity_after reserve reads kMinReadSize
       \<and> capacity_after reserve reads kMinReadSize \<le> kMaxReadSize
       \<and> IoLoop_need_more reserve c hint a r =
           (if c < kMaxReadSize \<and> c < hint then reserve c (min kMaxReadSize hint)
            else if c < kMaxReadSize \<and> a = r \<and> c div 2 < a then reserve c (2 * c)
            else c)"
proof -
  have "is_pow2 kMinReadSize"
    unfolding is_pow2_def by (rule exI [of _ 8]) (simp add: kMinReadSize_def)
  moreover have "kMinReadSize \<le> kMaxReadSize"
    by (simp add: kMinReadSize_def kMaxReadSize_def)
  ultimately have "kMinReadSize \<le> capacity_after reserve reads kMinReadSize
       \<and> capacity_after reserve reads kMinReadSize \<le> kMaxReadSize"
    using assms by (intro capacity_after_inv) auto
  then show ?thesis by (simp add: IoLoop_need_more_def mult.commute)
qed

theorem read_buffer_growth_witness:
  "capacity_after Reserve_pow2 [(0, 256, 256), (0, 512, 100), (20000, 412, 412)] kMinReadSize = 32768
   \<and> kMinReadSize \<le> capacity_after Reserve_pow2 [(0, 256, 256), (0, 512, 100), (20000, 412, 412)] kMinReadSize
   \<and> capacity_after Reserve_pow2 [(0, 256, 256), (0, 512, 100), (20000, 412, 412)] kMinReadSize \<le> kMaxReadSize
   \<and> IoLoop_need_more Reserve_pow2 256 0 256 256 = 512"
proof -
  have v: "capacity_after Reserve_pow2 [(0, 256, 256), (0, 512, 100), (20000, 412, 412)] kMinReadSize = 32768"
    by (simp add: IoLoop_need_more_def Reserve_pow2_def bit_ceil_from.simps kMinReadSize_def
        kMaxReadSize_def)
  have w: "IoLoop_need_more Reserve_pow2 256 0 256 256 = 512"
    by (simp add: IoLoop_need_more_def Reserve_pow2_def bit_ceil_from.simps kMaxReadSize_def)
  from read_buffer_growth [of Reserve_pow2 "[(0, 256, 256), (0, 512, 100), (20000, 412, 412)]" 256 0 256 256,
      OF Reserve_pow2_grows Reserve_pow2_bound] v w
  show ?thesis by simp
qed

text \<open>
  C8 does not hold as stated: with 256 bytes of capacity, no hint and a read of 10 bytes
  into an append buffer of 256, \<open>NEED_MORE\<close> leaves the capacity at 256; and a hint
  of 100000 bytes expands the buffer to 32 KiB, not to the hint.
\<close>

theorem need_more_without_growth_counterexample:
  "IoLoop_need_more Reserve_pow2 256 0 256 10 = 256
   \<and> IoLoop_need_more Reserve_pow2 256 100000 256 256 = 32768"
  by (simp add: IoLoop_need_more_def Reserve_pow2_def bit_ceil_from.simps kMaxReadSize_def)

subsection \<open>Subscriptions: the gathered channels and the shards' slices\<close>

lemma count_fold_nth:
  "k < length idx \<Longrightarrow>
   fold (\<lambda>k_v idx. idx[fst k_v := idx ! fst k_v + 1]) cs idx ! k
     = idx ! k + length (filter (\<lambda>p. fst p = k) cs)"
  by (induction cs arbitrary: idx) (auto simp: nth_list_update)

lemma count_fold_length:
  "length (fold (\<lambda>k_v idx. idx[fst k_v := idx ! fst k_v + 1]) cs idx) = length idx"
  by (induction cs arbitrary: idx) auto

lemma count_shards_nth:
  "k \<le> n \<Longrightarrow> count_shards n cs ! k = length (filter (\<lambda>p. fst p = k) cs)"
  using count_fold_nth [of k "replicate (n + 1) 0" cs]
  unfolding count_shards_def by (simp del: replicate_Suc)

lemma count_shards_length: "length (count_shards n cs) = n + 1"
  unfolding count_shards_def by (subst count_fold_length) simp

lemma map_nth_upt:
  "b \<le> length xs \<Longrightarrow> map (\<lambda>i. xs ! i) [a..<b] = drop a (take b xs)"
  by (rule nth_equalityI) auto

lemma filter_less_Suc:
  "length (filter (\<lambda>p. f p < Suc m) xs)
     = length (filter (\<lambda>p. f p < m) xs) + length (filter (\<lambda>p. f p = m) xs)"
  by (induction xs) auto

lemma cumulative_correct:
  fixes f :: "'a \<Rightarrow> nat"
  assumes "1 \<le> i"
    and "\<forall>j<i. j < length idx \<longrightarrow> idx ! j = length (filter (\<lambda>p. f p < j) xs)"
    and "\<forall>j. i \<le> j \<and> j < length idx \<longrightarrow> idx ! j = length (filter (\<lambda>p. f p = j) xs)"
    and "prev = length (filter (\<lambda>p. f p = i - 1) xs)"
  shows "length (cumulative i prev idx) = length idx
       \<and> (\<forall>j<length idx. cumulative i prev idx ! j = length (filter (\<lambda>p. f p < j) xs))"
  using assms
proof (induction i prev idx rule: cumulative.induct)
  case (1 i prev idx)
  show ?case
  proof (cases "i < length idx")
    case False
    then have "cumulative i prev idx = idx" by (subst cumulative.simps) simp
    moreover have "\<forall>j<length idx. idx ! j = length (filter (\<lambda>p. f p < j) xs)"
      using False "1.prems"(2) by auto
    ultimately show ?thesis by simp
  next
    case True
    let ?idx' = "idx[i := idx ! (i - 1) + prev]"
    have unfold: "cumulative i prev idx = cumulative (i + 1) (idx ! i) ?idx'"
      using True by (subst cumulative.simps) (simp add: Let_def)
    have im1: "idx ! (i - 1) = length (filter (\<lambda>p. f p < i - 1) xs)"
      using "1.prems"(1,2) True by auto
    have new: "idx ! (i - 1) + prev = length (filter (\<lambda>p. f p < i) xs)"
      using im1 "1.prems"(1,4) filter_less_Suc [of f "i - 1" xs] by simp
    have a: "\<forall>j<i + 1. j < length ?idx' \<longrightarrow> ?idx' ! j = length (filter (\<lambda>p. f p < j) xs)"
      using "1.prems"(2) new True by (auto simp: nth_list_update less_Suc_eq)
    have b: "\<forall>j. i + 1 \<le> j \<and> j < length ?idx' \<longrightarrow> ?idx' ! j = length (filter (\<lambda>p. f p = j) xs)"
      using "1.prems"(3) by (auto simp: nth_list_update)
    have c: "idx ! i = length (filter (\<lambda>p. f p = i + 1 - 1) xs)"
      using "1.prems"(3) True by simp
    have "length (cumulative (i + 1) (idx ! i) ?idx') = length ?idx'
       \<and> (\<forall>j<length ?idx'. cumulative (i + 1) (idx ! i) ?idx' ! j = length (filter (\<lambda>p. f p < j) xs))"
      using True a b c by (intro "1.IH") auto
    then show ?thesis using unfold by simp
  qed
qed

lemma shard_index_nth:
  assumes "k \<le> n"
  shows "shard_index n cs ! k = length (filter (\<lambda>p. fst p < k) cs)"
proof -
  let ?cnt = "count_shards n cs"
  have len: "length ?cnt = n + 1" by (rule count_shards_length)
  have "length (cumulative 1 (?cnt ! 0) (?cnt[0 := 0])) = length (?cnt[0 := 0])
       \<and> (\<forall>j<length (?cnt[0 := 0]). cumulative 1 (?cnt ! 0) (?cnt[0 := 0]) ! j
             = length (filter (\<lambda>p. fst p < j) cs))"
  proof (rule cumulative_correct)
    show "(1::nat) \<le> 1" by simp
    show "\<forall>j<1. j < length (?cnt[0 := 0]) \<longrightarrow> ?cnt[0 := 0] ! j = length (filter (\<lambda>p. fst p < j) cs)"
      by auto
    show "\<forall>j. 1 \<le> j \<and> j < length (?cnt[0 := 0]) \<longrightarrow>
        ?cnt[0 := 0] ! j = length (filter (\<lambda>p. fst p = j) cs)"
      using len by (auto simp: count_shards_nth)
    show "?cnt ! 0 = length (filter (\<lambda>p. fst p = 1 - 1) cs)"
      by (simp add: count_shards_nth)
  qed
  then show ?thesis using assms len by (simp add: shard_index_def Let_def)
qed

lemma sorted_take_filter:
  fixes f :: "'a \<Rightarrow> nat"
  assumes "sorted (map f xs)"
  shows "take (length (filter (\<lambda>x. f x < k) xs)) xs = filter (\<lambda>x. f x < k) xs
       \<and> drop (length (filter (\<lambda>x. f x < k) xs)) xs = filter (\<lambda>x. \<not> f x < k) xs"
  using assms
proof (induction xs)
  case Nil
  then show ?case by simp
next
  case (Cons x xs)
  show ?case
  proof (cases "f x < k")
    case True
    then show ?thesis using Cons by simp
  next
    case False
    then have "\<forall>y\<in>set xs. \<not> f y < k" using Cons.prems by auto
    then have "filter (\<lambda>x. f x < k) xs = []" and "filter (\<lambda>x. \<not> f x < k) xs = xs"
      by (simp_all add: filter_empty_conv)
    then show ?thesis using False by simp
  qed
qed

lemma shard_slice:
  assumes "sorted cs" and "sid < n"
  shows "map (\<lambda>i. cs ! i) [shard_index n cs ! sid ..< shard_index n cs ! (sid + 1)]
           = filter (\<lambda>p. fst p = sid) cs"
proof -
  let ?a = "length (filter (\<lambda>p. fst p < sid) cs)"
  let ?b = "length (filter (\<lambda>p. fst p < Suc sid) cs)"
  let ?ys = "filter (\<lambda>p. fst p < Suc sid) cs"
  have sf: "sorted (map fst cs)"
    using assms(1) by (induction cs) (auto simp: less_eq_prod_def)
  have a: "shard_index n cs ! sid = ?a" using assms(2) by (simp add: shard_index_nth)
  have b: "shard_index n cs ! (sid + 1) = ?b" using assms(2) by (simp add: shard_index_nth)
  have ble: "?b \<le> length cs" by (rule length_filter_le)
  have tk: "take ?b cs = ?ys" using sorted_take_filter [OF sf, of "Suc sid"] by simp
  have sys: "sorted (map fst ?ys)" using sf by (simp add: sorted_filter)
  have fa: "filter (\<lambda>p. fst p < sid) ?ys = filter (\<lambda>p. fst p < sid) cs"
    by (induction cs) auto
  have "map (\<lambda>i. cs ! i) [?a ..< ?b] = drop ?a (take ?b cs)"
    using ble by (rule map_nth_upt)
  also have "\<dots> = drop (length (filter (\<lambda>p. fst p < sid) ?ys)) ?ys"
    unfolding tk fa ..
  also have "\<dots> = filter (\<lambda>p. \<not> fst p < sid) ?ys"
    using sorted_take_filter [OF sys, of sid] by simp
  also have "\<dots> = filter (\<lambda>p. fst p = sid) cs"
    by (induction cs) auto
  finally show ?thesis using a b by simp
qed

lemma subs_after_Cons:
  "subs_after to_add S (a # as) = subs_after to_add (if to_add then finsert a S else S |-| {|a|}) as"
  by (simp add: subs_after_def)

lemma gather_channels_spec:
  "gather_channels to_add sh as S = (S', sizes, chans) \<Longrightarrow>
     S' = subs_after to_add S as
   \<and> sizes = map (\<lambda>i. fcard (subs_after to_add S (take (Suc i) as)) mod 2 ^ 32) [0..<length as]
   \<and> map fst chans = map sh (map snd chans)
   \<and> distinct (map snd chans)
   \<and> set (map snd chans) = {a \<in> set as. changes to_add S a}"
proof (induction as arbitrary: S S' sizes chans)
  case Nil
  then show ?case by (simp add: subs_after_def)
next
  case (Cons a as)
  define S1 where "S1 = (if to_add then finsert a S else S |-| {|a|})"
  obtain S2 sz2 ch2 where g: "gather_channels to_add sh as S1 = (S2, sz2, ch2)"
    by (cases "gather_channels to_add sh as S1") auto
  from Cons.IH [OF g] have ih:
    "S2 = subs_after to_add S1 as"
    "sz2 = map (\<lambda>i. fcard (subs_after to_add S1 (take (Suc i) as)) mod 2 ^ 32) [0..<length as]"
    "map fst ch2 = map sh (map snd ch2)"
    "distinct (map snd ch2)"
    "set (map snd ch2) = {x \<in> set as. changes to_add S1 x}"
    by auto
  from Cons.prems g have res:
    "S' = S2"
    "sizes = (fcard S1 mod 2 ^ 32) # sz2"
    "chans = (if changes to_add S a then [(sh a, a)] else []) @ ch2"
    by (auto simp: Let_def changes_def S1_def split: if_splits)
  have step: "subs_after to_add S (a # xs) = subs_after to_add S1 xs" for xs
    by (simp add: subs_after_def S1_def)
  have s1: "S' = subs_after to_add S (a # as)"
    using res(1) ih(1) by (simp add: step)
  have "map (\<lambda>i. fcard (subs_after to_add S (take (Suc i) (a # as))) mod 2 ^ 32) [0..<length (a # as)]
      = (fcard (subs_after to_add S (take (Suc 0) (a # as))) mod 2 ^ 32)
        # map (\<lambda>i. fcard (subs_after to_add S (take (Suc (Suc i)) (a # as))) mod 2 ^ 32) [0..<length as]"
    by (simp add: map_upt_Suc del: upt_Suc)
  also have "\<dots> = (fcard S1 mod 2 ^ 32) # sz2"
    unfolding ih(2) by (simp add: step) (simp add: subs_after_def)
  finally have s2: "sizes = map (\<lambda>i. fcard (subs_after to_add S (take (Suc i) (a # as))) mod 2 ^ 32)
                      [0..<length (a # as)]"
    using res(2) by simp
  have nch: "\<not> changes to_add S1 a" by (simp add: changes_def S1_def)
  have oth: "changes to_add S1 x = changes to_add S x" if "x \<noteq> a" for x
    using that by (auto simp: changes_def S1_def)
  have s3: "map fst chans = map sh (map snd chans)" using res(3) ih(3) by simp
  have s4: "distinct (map snd chans)" using res(3) ih(4,5) nch by auto
  have s5: "set (map snd chans) = {x \<in> set (a # as). changes to_add S x}"
  proof (rule set_eqI)
    fix x
    show "x \<in> set (map snd chans) \<longleftrightarrow> x \<in> {x \<in> set (a # as). changes to_add S x}"
    proof (cases "x = a")
      case True
      then show ?thesis using res(3) ih(5) nch by auto
    next
      case False
      then show ?thesis using res(3) ih(5) oth [OF False] by auto
    qed
  qed
  from s1 s2 s3 s4 s5 show ?case by blast
qed

lemma gather_patterns_channels:
  "gather_patterns to_add as S =
     (case gather_channels to_add sh as S of (S', sizes, chans) \<Rightarrow> (S', sizes, map snd chans))"
  by (induction as arbitrary: S) (auto simp: Let_def split: prod.splits)

lemma gather_patterns_spec:
  assumes "gather_patterns to_add as S = (S', sizes, pats)"
  shows "S' = subs_after to_add S as
   \<and> sizes = map (\<lambda>i. fcard (subs_after to_add S (take (Suc i) as)) mod 2 ^ 32) [0..<length as]
   \<and> distinct pats
   \<and> set pats = {a \<in> set as. changes to_add S a}"
proof -
  obtain chans where g: "gather_channels to_add (\<lambda>_. 0) as S = (S', sizes, chans)"
    and p: "pats = map snd chans"
    using assms gather_patterns_channels [of to_add as S "\<lambda>_. 0"]
    by (auto split: prod.splits)
  from gather_channels_spec [OF g] p show ?thesis by simp
qed

lemma fcard_subs_after: "fcard (subs_after to_add S as) \<le> fcard S + length as"
proof (induction as arbitrary: S)
  case Nil
  then show ?case by (simp add: subs_after_def)
next
  case (Cons a as)
  define S1 where "S1 = (if to_add then finsert a S else S |-| {|a|})"
  have "fcard S1 \<le> fcard S + 1"
    by (auto simp: S1_def fcard_finsert_if intro: le_trans [OF fcard_mono])
  moreover have "subs_after to_add S (a # as) = subs_after to_add S1 as"
    by (simp add: subs_after_def S1_def)
  ultimately show ?case using Cons.IH [of S1] by simp
qed

lemma subs_after_empty: "subs_after False {||} as = {||}"
  by (induction as) (simp_all add: subs_after_def)

lemma subs_after_snoc:
  "subs_after to_add S (as @ [a]) =
     (if to_add then finsert a (subs_after to_add S as) else subs_after to_add S as |-| {|a|})"
  by (simp add: subs_after_def)

lemma subs_after_mem:
  "a \<in> set as \<Longrightarrow> \<not> changes to_add (subs_after to_add S as) a"
proof (induction as rule: rev_induct)
  case Nil
  then show ?case by simp
next
  case (snoc x xs)
  then show ?case by (auto simp: subs_after_snoc changes_def)
qed

lemma subs_after_duplicate:
  assumes "j < length as" and "as ! j \<in> set (take j as)"
  shows "subs_after to_add S (take (Suc j) as) = subs_after to_add S (take j as)"
proof -
  have "take (Suc j) as = take j as @ [as ! j]"
    using assms(1) by (rule take_Suc_conv_app_nth)
  moreover have "\<not> changes to_add (subs_after to_add S (take j as)) (as ! j)"
    using assms(2) by (rule subs_after_mem)
  ultimately show ?thesis
    by (auto simp: subs_after_snoc changes_def)
qed

lemma send_replies_acks:
  assumes "result = map g [0..<length argv]"
  shows "send_replies action argv result =
           concat (map (\<lambda>i. ack action (argv ! i) (g i)) [0..<length argv])"
  unfolding send_replies_def ack_def assms
  by (rule arg_cong [where f = concat]) (simp add: map_eq_conv)

lemma subscription_cb_slice:
  assumes "sorted cs" and "sid < n"
  shows "(if shard_index n cs ! (sid + 1) > shard_index n cs ! sid
          then subscription_cb to_add tid cs (shard_index n cs) sid else [])
         = map (slice_call_of to_add tid \<circ> snd) (filter (\<lambda>p. fst p = sid) cs)"
proof -
  have "subscription_cb to_add tid cs (shard_index n cs) sid
      = map (slice_call_of to_add tid \<circ> snd)
          (map (\<lambda>i. cs ! i) [shard_index n cs ! sid ..< shard_index n cs ! (sid + 1)])"
    by (simp add: subscription_cb_def slice_call_of_def comp_def)
  also have "\<dots> = map (slice_call_of to_add tid \<circ> snd) (filter (\<lambda>p. fst p = sid) cs)"
    using shard_slice [OF assms] by simp
  finally have eq: "subscription_cb to_add tid cs (shard_index n cs) sid
      = map (slice_call_of to_add tid \<circ> snd) (filter (\<lambda>p. fst p = sid) cs)" .
  have "subscription_cb to_add tid cs (shard_index n cs) sid = []"
    if "\<not> shard_index n cs ! (sid + 1) > shard_index n cs ! sid"
    using that by (simp add: subscription_cb_def)
  with eq show ?thesis by (cases "shard_index n cs ! (sid + 1) > shard_index n cs ! sid") auto
qed

lemma ChangeSubscription_unfold:
  assumes "to_add \<or> subscribe_info cntx \<noteq> None"
    and "gather_channels to_add sh argv (channels (info_of cntx)) = (S, sizes, chans0)"
  shows "ChangeSubscription sh n tid to_add to_reply argv cntx =
     cntx\<lparr>subscribe_info := info_after to_add ((info_of cntx)\<lparr>channels := S\<rparr>),
          ctx_force_dispatch :=
            (if \<not> to_add \<and> IsEmpty_info ((info_of cntx)\<lparr>channels := S\<rparr>) then False
             else if subscribe_info cntx = None then True else ctx_force_dispatch cntx),
          replies := replies cntx
            @ (if to_reply then send_replies (if to_add then ''subscribe'' else ''unsubscribe'') argv sizes
               else []),
          slice_calls := (\<lambda>sid. slice_calls cntx sid
            @ (if sid < n then map (slice_call_of to_add tid \<circ> snd)
                                 (filter (\<lambda>p. fst p = sid) (sort chans0))
               else []))\<rparr>"
proof -
  have sl: "(\<lambda>sid. slice_calls cntx sid
              @ (if sid < n \<and> shard_index n (sort chans0) ! sid < shard_index n (sort chans0) ! Suc sid
                 then subscription_cb to_add tid (sort chans0) (shard_index n (sort chans0)) sid else []))
          = (\<lambda>sid. slice_calls cntx sid
              @ (if sid < n then map (slice_call_of to_add tid \<circ> snd)
                                   (filter (\<lambda>p. fst p = sid) (sort chans0))
                 else []))"
  proof (rule ext)
    fix sid
    show "slice_calls cntx sid
              @ (if sid < n \<and> shard_index n (sort chans0) ! sid < shard_index n (sort chans0) ! Suc sid
                 then subscription_cb to_add tid (sort chans0) (shard_index n (sort chans0)) sid else [])
          = slice_calls cntx sid
              @ (if sid < n then map (slice_call_of to_add tid \<circ> snd)
                                   (filter (\<lambda>p. fst p = sid) (sort chans0))
                 else [])"
      using subscription_cb_slice [of "sort chans0" sid n to_add tid]
      by (cases "sid < n") auto
  qed
  show ?thesis
  proof (cases "subscribe_info cntx")
    case None
    with assms show ?thesis
      unfolding ChangeSubscription_def RunBriefInParallel_def
      by (simp add: Let_def info_of_def info_after_def sl)
  next
    case (Some info)
    with assms show ?thesis
      unfolding ChangeSubscription_def RunBriefInParallel_def
      by (simp add: Let_def info_of_def info_after_def sl)
  qed
qed

lemma ChangePSub_unfold:
  assumes "to_add \<or> subscribe_info cntx \<noteq> None"
    and "gather_patterns to_add argv (patterns (info_of cntx)) = (S, sizes, pats)"
  shows "ChangePSub n tid to_add to_reply argv cntx =
     cntx\<lparr>subscribe_info := info_after to_add ((info_of cntx)\<lparr>patterns := S\<rparr>),
          ctx_force_dispatch :=
            (if \<not> to_add \<and> IsEmpty_info ((info_of cntx)\<lparr>patterns := S\<rparr>) then False
             else if subscribe_info cntx = None then True else ctx_force_dispatch cntx),
          replies := replies cntx
            @ (if to_reply then send_replies (if to_add then ''psubscribe'' else ''punsubscribe'') argv sizes
               else []),
          slice_calls := (\<lambda>sid. slice_calls cntx sid
            @ (if sid < n then map (pattern_call_of to_add tid) pats else []))\<rparr>"
proof -
  have pc: "pattern_cb ta tid pats sid = map (pattern_call_of ta tid) pats" for sid ta
    by (simp add: pattern_cb_def pattern_call_of_def)
  show ?thesis
  proof (cases "subscribe_info cntx")
    case None
    with assms show ?thesis
      unfolding ChangePSub_def RunBriefInParallel_def
      by (simp add: Let_def info_of_def info_after_def pc cong: if_cong)
  next
    case (Some info)
    with assms show ?thesis
      unfolding ChangePSub_def RunBriefInParallel_def
      by (simp add: Let_def info_of_def info_after_def pc cong: if_cong)
  qed
qed

lemma ChangeSubscription_noop:
  assumes "\<not> to_add" and "subscribe_info cntx = None"
  shows "ChangeSubscription sh n tid to_add to_reply argv cntx =
     cntx\<lparr>replies := replies cntx
        @ (if to_reply then send_replies ''unsubscribe'' argv (replicate (length argv) 0) else [])\<rparr>"
  using assms by (simp add: ChangeSubscription_def Let_def)

lemma ChangePSub_noop:
  assumes "\<not> to_add" and "subscribe_info cntx = None"
  shows "ChangePSub n tid to_add to_reply argv cntx =
     cntx\<lparr>replies := replies cntx
        @ (if to_reply then send_replies ''punsubscribe'' argv (replicate (length argv) 0) else [])\<rparr>"
  using assms by (simp add: ChangePSub_def Let_def)

lemma sizes_no_wrap:
  assumes "fcard S + length as < 2 ^ 32"
  shows "map (\<lambda>i. fcard (subs_after to_add S (take (Suc i) as)) mod 2 ^ 32) [0..<length as]
       = map (\<lambda>i. fcard (subs_after to_add S (take (Suc i) as))) [0..<length as]"
proof (rule map_cong [OF refl])
  fix i assume "i \<in> set [0..<length as]"
  have "fcard (subs_after to_add S (take (Suc i) as)) \<le> fcard S + length (take (Suc i) as)"
    by (rule fcard_subs_after)
  also have "\<dots> \<le> fcard S + length as" by simp
  finally have "fcard (subs_after to_add S (take (Suc i) as)) < 2 ^ 32" using assms by simp
  then show "fcard (subs_after to_add S (take (Suc i) as)) mod 2 ^ 32
        = fcard (subs_after to_add S (take (Suc i) as))" by simp
qed

lemma replicate_zero_sizes:
  "replicate (length as) 0 = map (\<lambda>i. fcard (subs_after False {||} (take (Suc i) as))) [0..<length as]"
  by (simp add: subs_after_empty map_replicate_const)

lemma ChangeSubscription_replies:
  assumes "fcard (subscribed_channels cntx) + length argv < 2 ^ 32"
  shows "replies (ChangeSubscription sh n tid to_add True argv cntx) =
     replies cntx @ concat (map (\<lambda>i. ack (if to_add then ''subscribe'' else ''unsubscribe'') (argv ! i)
        (fcard (subs_after to_add (subscribed_channels cntx) (take (Suc i) argv)))) [0..<length argv])"
proof (cases "to_add \<or> subscribe_info cntx \<noteq> None")
  case True
  have sc: "subscribed_channels cntx = channels (info_of cntx)"
    by (simp add: subscribed_channels_def info_of_def split: option.splits)
  obtain S sizes chans0 where
    g: "gather_channels to_add sh argv (channels (info_of cntx)) = (S, sizes, chans0)"
    by (cases "gather_channels to_add sh argv (channels (info_of cntx))") auto
  have nw: "fcard (channels (info_of cntx)) + length argv < 2 ^ 32"
    using assms unfolding sc .
  from gather_channels_spec [OF g]
  have "sizes = map (\<lambda>i. fcard (subs_after to_add (channels (info_of cntx)) (take (Suc i) argv)) mod 2 ^ 32)
                       [0..<length argv]"
    by blast
  then have sz: "sizes = map (\<lambda>i. fcard (subs_after to_add (channels (info_of cntx)) (take (Suc i) argv)))
                       [0..<length argv]"
    unfolding sizes_no_wrap [OF nw] .
  show ?thesis
    unfolding ChangeSubscription_unfold [OF True g] sc
    by (simp add: send_replies_acks [OF sz])
next
  case False
  then have na: "\<not> to_add" and none: "subscribe_info cntx = None" by auto
  have sc: "subscribed_channels cntx = {||}" using none by (simp add: subscribed_channels_def)
  show ?thesis
    unfolding ChangeSubscription_noop [OF na none] sc
    using na by (simp add: send_replies_acks [OF replicate_zero_sizes])
qed

lemma ChangePSub_replies:
  assumes "fcard (subscribed_patterns cntx) + length argv < 2 ^ 32"
  shows "replies (ChangePSub n tid to_add True argv cntx) =
     replies cntx @ concat (map (\<lambda>i. ack (if to_add then ''psubscribe'' else ''punsubscribe'') (argv ! i)
        (fcard (subs_after to_add (subscribed_patterns cntx) (take (Suc i) argv)))) [0..<length argv])"
proof (cases "to_add \<or> subscribe_info cntx \<noteq> None")
  case True
  have sc: "subscribed_patterns cntx = patterns (info_of cntx)"
    by (simp add: subscribed_patterns_def info_of_def split: option.splits)
  obtain S sizes pats where
    g: "gather_patterns to_add argv (patterns (info_of cntx)) = (S, sizes, pats)"
    by (cases "gather_patterns to_add argv (patterns (info_of cntx))") auto
  have nw: "fcard (patterns (info_of cntx)) + length argv < 2 ^ 32"
    using assms unfolding sc .
  from gather_patterns_spec [OF g]
  have "sizes = map (\<lambda>i. fcard (subs_after to_add (patterns (info_of cntx)) (take (Suc i) argv)) mod 2 ^ 32)
                       [0..<length argv]"
    by blast
  then have sz: "sizes = map (\<lambda>i. fcard (subs_after to_add (patterns (info_of cntx)) (take (Suc i) argv)))
                       [0..<length argv]"
    unfolding sizes_no_wrap [OF nw] .
  show ?thesis
    unfolding ChangePSub_unfold [OF True g] sc
    by (simp add: send_replies_acks [OF sz])
next
  case False
  then have na: "\<not> to_add" and none: "subscribe_info cntx = None" by auto
  have sc: "subscribed_patterns cntx = {||}" using none by (simp add: subscribed_patterns_def)
  show ?thesis
    unfolding ChangePSub_noop [OF na none] sc
    using na by (simp add: send_replies_acks [OF replicate_zero_sizes])
qed

lemma inj_slice_call_of: "inj (slice_call_of to_add tid)"
  by (rule injI) (auto simp: slice_call_of_def split: if_splits)

lemma inj_pattern_call_of: "inj (pattern_call_of to_add tid)"
  by (rule injI) (auto simp: pattern_call_of_def split: if_splits)

lemma shard_calls_spec:
  assumes fs: "map fst chans0 = map sh (map snd chans0)"
    and ds: "distinct (map snd chans0)"
    and st: "set (map snd chans0) = A"
  shows "distinct (map (slice_call_of to_add tid \<circ> snd) (filter (\<lambda>p. fst p = sid) (sort chans0)))
       \<and> set (map (slice_call_of to_add tid \<circ> snd) (filter (\<lambda>p. fst p = sid) (sort chans0)))
           = slice_call_of to_add tid ` {a \<in> A. sh a = sid}"
proof -
  have pr: "\<forall>p\<in>set chans0. fst p = sh (snd p)"
    using fs by (simp add: map_eq_conv)
  have inj: "inj_on snd (set chans0)"
    using ds by (simp add: distinct_map)
  have d0: "distinct chans0" using ds by (simp add: distinct_map)
  have d1: "distinct (map snd (sort chans0))"
    using d0 inj by (simp add: distinct_map)
  have d2: "distinct (map snd (filter (\<lambda>p. fst p = sid) (sort chans0)))"
    using d1 by (rule distinct_map_filter)
  have d3: "distinct (map (slice_call_of to_add tid) (map snd (filter (\<lambda>p. fst p = sid) (sort chans0))))"
    using d2 inj_slice_call_of [of to_add tid]
    by (simp only: distinct_map) (auto intro: inj_on_subset)
  have s1: "snd ` {p \<in> set chans0. fst p = sid} = {a \<in> A. sh a = sid}"
    using pr st by force
  have "set (map (slice_call_of to_add tid \<circ> snd) (filter (\<lambda>p. fst p = sid) (sort chans0)))
      = slice_call_of to_add tid ` snd ` {p \<in> set chans0. fst p = sid}"
    by (simp add: image_comp)
  with s1 d3 show ?thesis by simp
qed

lemma ChangeSubscription_calls:
  "\<exists>new. slice_calls (ChangeSubscription sh n tid to_add to_reply argv cntx) sid
            = slice_calls cntx sid @ new
        \<and> distinct new
        \<and> set new = (if sid < n
                      then slice_call_of to_add tid
                             ` {a \<in> set argv. sh a = sid \<and> changes to_add (subscribed_channels cntx) a}
                      else {})"
proof (cases "to_add \<or> subscribe_info cntx \<noteq> None")
  case True
  have sc: "subscribed_channels cntx = channels (info_of cntx)"
    by (simp add: subscribed_channels_def info_of_def split: option.splits)
  obtain S sizes chans0 where
    g: "gather_channels to_add sh argv (channels (info_of cntx)) = (S, sizes, chans0)"
    by (cases "gather_channels to_add sh argv (channels (info_of cntx))") auto
  from gather_channels_spec [OF g] have
    fs: "map fst chans0 = map sh (map snd chans0)" and ds: "distinct (map snd chans0)"
    and st: "set (map snd chans0) = {a \<in> set argv. changes to_add (channels (info_of cntx)) a}"
    by blast+
  from shard_calls_spec [OF fs ds st, of to_add tid sid]
  show ?thesis
    unfolding ChangeSubscription_unfold [OF True g] sc
    by (cases "sid < n") (auto simp: conj_commute)
next
  case False
  then have na: "\<not> to_add" and none: "subscribe_info cntx = None" by auto
  have sc: "subscribed_channels cntx = {||}" using none by (simp add: subscribed_channels_def)
  show ?thesis
    unfolding ChangeSubscription_noop [OF na none] sc
    using na by (simp add: changes_def)
qed

lemma ChangePSub_calls:
  "\<exists>new. slice_calls (ChangePSub n tid to_add to_reply argv cntx) sid
            = slice_calls cntx sid @ new
        \<and> distinct new
        \<and> set new = (if sid < n
                      then pattern_call_of to_add tid
                             ` {a \<in> set argv. changes to_add (subscribed_patterns cntx) a}
                      else {})"
proof (cases "to_add \<or> subscribe_info cntx \<noteq> None")
  case True
  have sc: "subscribed_patterns cntx = patterns (info_of cntx)"
    by (simp add: subscribed_patterns_def info_of_def split: option.splits)
  obtain S sizes pats where
    g: "gather_patterns to_add argv (patterns (info_of cntx)) = (S, sizes, pats)"
    by (cases "gather_patterns to_add argv (patterns (info_of cntx))") auto
  from gather_patterns_spec [OF g] have
    ds: "distinct pats"
    and st: "set pats = {a \<in> set argv. changes to_add (patterns (info_of cntx)) a}"
    by blast+
  have "distinct (map (pattern_call_of to_add tid) pats)"
    using ds inj_pattern_call_of [of to_add tid]
    by (simp only: distinct_map) (auto intro: inj_on_subset)
  then show ?thesis
    unfolding ChangePSub_unfold [OF True g] sc
    using st by (cases "sid < n") auto
next
  case False
  then have na: "\<not> to_add" and none: "subscribe_info cntx = None" by auto
  have sc: "subscribed_patterns cntx = {||}" using none by (simp add: subscribed_patterns_def)
  show ?thesis
    unfolding ChangePSub_noop [OF na none] sc
    using na by (simp add: changes_def)
qed

subsection \<open>Acknowledgements of subscribe and unsubscribe\<close>

text \<open>
  C4 does not hold as stated: a connection already subscribed to \<open>a\<close> that subscribes
  to \<open>a\<close> twice in one request makes no registry insertion at all; both
  acknowledgements carry the count 1.
\<close>

theorem resubscribe_no_insertion_counterexample:
  "slice_calls (ChangeSubscription ex_shard 2 0 True True [''a'', ''a''] ex_cntx_a) 0 = []
   \<and> slice_calls (ChangeSubscription ex_shard 2 0 True True [''a'', ''a''] ex_cntx_a) 1 = []
   \<and> replies (ChangeSubscription ex_shard 2 0 True True [''a'', ''a''] ex_cntx_a) =
       ack ''subscribe'' ''a'' 1 @ ack ''subscribe'' ''a'' 1"
proof -
  have e: "{x \<in> set [''a'', ''a'']. ex_shard x = sid
            \<and> changes True (subscribed_channels ex_cntx_a) x} = {}" for sid
    by (auto simp: changes_def subscribed_channels_def ex_cntx_a_def)
  have s: "slice_calls (ChangeSubscription ex_shard 2 0 True True [''a'', ''a''] ex_cntx_a) sid = []" for sid
  proof -
    from ChangeSubscription_calls [of ex_shard 2 0 True True "[''a'', ''a'']" ex_cntx_a sid]
    obtain new where
      n1: "slice_calls (ChangeSubscription ex_shard 2 0 True True [''a'', ''a''] ex_cntx_a) sid
             = slice_calls ex_cntx_a sid @ new"
      and n3: "set new = (if sid < 2 then slice_call_of True 0 ` {} else {})"
      unfolding e by blast
    from n3 have "new = []" by (simp split: if_splits)
    with n1 show ?thesis by (simp add: ex_cntx_a_def ex_cntx_def)
  qed
  have a: "fcard (subscribed_channels ex_cntx_a) + length [''a'', ''a''] < 2 ^ 32"
    by (simp add: subscribed_channels_def ex_cntx_a_def fcard_finsert_if fcard_fempty)
  have two: "[0..<length [''a'', ''a'']] = [0, 1]"
    by (simp add: upt_rec)
  have r: "replies (ChangeSubscription ex_shard 2 0 True True [''a'', ''a''] ex_cntx_a) =
       ack ''subscribe'' ''a'' 1 @ ack ''subscribe'' ''a'' 1"
    unfolding ChangeSubscription_replies [OF a] two
    by (simp add: subs_after_def subscribed_channels_def ex_cntx_a_def ex_cntx_def
        fcard_finsert_if fcard_fempty)
  from s [of 0] s [of 1] r show ?thesis by simp
qed

text \<open>
  C4, amended. With \<open>to_reply\<close> set, a subscribe or unsubscribe (psubscribe or
  punsubscribe) request with arguments \<open>a1..an\<close> writes exactly \<open>n\<close>
  acknowledgements, in input order; the \<open>i\<close>-th is the 3-array of the action,
  \<open>ai\<close> and the number of channels (patterns) of the connection right after
  \<open>ai\<close> has been processed. On each shard every name is inserted or removed at most
  once, however often it occurs in the list: exactly once on the shard that owns the
  channel (on every shard for a pattern) when its first occurrence changes the
  connection's set, and not at all otherwise. A repeated argument leaves the count as it
  was before it.
\<close>

theorem subscription_acknowledgements:
  assumes "fcard (subscribed_channels cntx) + length argv < 2 ^ 32"
    and "fcard (subscribed_patterns cntx) + length argv < 2 ^ 32"
    and "\<And>ch. shard_of ch < n"
  shows "replies (ChangeSubscription shard_of n tid to_add True argv cntx) =
           replies cntx @ concat (map (\<lambda>i.
             ack (if to_add then ''subscribe'' else ''unsubscribe'') (argv ! i)
               (fcard (subs_after to_add (subscribed_channels cntx) (take (Suc i) argv))))
             [0..<length argv])
       \<and> replies (ChangePSub n tid to_add True argv cntx) =
           replies cntx @ concat (map (\<lambda>i.
             ack (if to_add then ''psubscribe'' else ''punsubscribe'') (argv ! i)
               (fcard (subs_after to_add (subscribed_patterns cntx) (take (Suc i) argv))))
             [0..<length argv])
       \<and> (\<forall>sid. \<exists>new.
             slice_calls (ChangeSubscription shard_of n tid to_add True argv cntx) sid
               = slice_calls cntx sid @ new
           \<and> distinct new
           \<and> set new = (if sid < n
                         then slice_call_of to_add tid
                                ` {a \<in> set argv. shard_of a = sid
                                     \<and> changes to_add (subscribed_channels cntx) a}
                         else {}))
       \<and> (\<forall>sid. \<exists>new.
             slice_calls (ChangePSub n tid to_add True argv cntx) sid
               = slice_calls cntx sid @ new
           \<and> distinct new
           \<and> set new = (if sid < n
                         then pattern_call_of to_add tid
                                ` {a \<in> set argv. changes to_add (subscribed_patterns cntx) a}
                         else {}))
       \<and> (\<forall>S j. j < length argv \<and> argv ! j \<in> set (take j argv) \<longrightarrow>
             fcard (subs_after to_add S (take (Suc j) argv))
               = fcard (subs_after to_add S (take j argv)))"
proof -
  note r1 = ChangeSubscription_replies [OF assms(1), of shard_of n tid to_add]
  note r2 = ChangePSub_replies [OF assms(2), of n tid to_add]
  have c1: "\<forall>sid. \<exists>new.
             slice_calls (ChangeSubscription shard_of n tid to_add True argv cntx) sid
               = slice_calls cntx sid @ new
           \<and> distinct new
           \<and> set new = (if sid < n
                         then slice_call_of to_add tid
                                ` {a \<in> set argv. shard_of a = sid
                                     \<and> changes to_add (subscribed_channels cntx) a}
                         else {})"
    using ChangeSubscription_calls by blast
  have c2: "\<forall>sid. \<exists>new.
             slice_calls (ChangePSub n tid to_add True argv cntx) sid
               = slice_calls cntx sid @ new
           \<and> distinct new
           \<and> set new = (if sid < n
                         then pattern_call_of to_add tid
                                ` {a \<in> set argv. changes to_add (subscribed_patterns cntx) a}
                         else {})"
    using ChangePSub_calls by blast
  have d: "\<forall>S j. j < length argv \<and> argv ! j \<in> set (take j argv) \<longrightarrow>
             fcard (subs_after to_add S (take (Suc j) argv))
               = fcard (subs_after to_add S (take j argv))"
    using subs_after_duplicate by auto
  from r1 r2 c1 c2 d show ?thesis by blast
qed

theorem subscription_acknowledgements_witness:
  "replies (ChangeSubscription ex_shard 2 0 True True [''a'', ''bb'', ''a''] ex_cntx) =
     ack ''subscribe'' ''a'' 1 @ ack ''subscribe'' ''bb'' 2 @ ack ''subscribe'' ''a'' 2
   \<and> replies (ChangePSub 2 0 True True [''a'', ''bb'', ''a''] ex_cntx) =
     ack ''psubscribe'' ''a'' 1 @ ack ''psubscribe'' ''bb'' 2 @ ack ''psubscribe'' ''a'' 2
   \<and> (\<exists>new. slice_calls (ChangeSubscription ex_shard 2 0 True True [''a'', ''bb'', ''a''] ex_cntx) 1 = new
          \<and> distinct new \<and> set new = {AddSubscription ''a'' 0})"
proof -
  have a: "fcard (subscribed_channels ex_cntx) + length [''a'', ''bb'', ''a''] < 2 ^ 32"
    by (simp add: subscribed_channels_def ex_cntx_def fcard_fempty)
  have b: "fcard (subscribed_patterns ex_cntx) + length [''a'', ''bb'', ''a''] < 2 ^ 32"
    by (simp add: subscribed_patterns_def ex_cntx_def fcard_fempty)
  have c: "ex_shard ch < 2" for ch
    by (simp add: ex_shard_def)
  have three: "[0..<length [''a'', ''bb'', ''a'']] = [0, 1, 2]"
    by (simp add: upt_rec)
  have sel: "{x \<in> set [''a'', ''bb'', ''a'']. ex_shard x = 1 \<and> changes True {||} x} = {''a''}"
    by (auto simp: ex_shard_def changes_def)
  from subscription_acknowledgements [where tid = 0 and to_add = True, OF a b c]
  have r1: "replies (ChangeSubscription ex_shard 2 0 True True [''a'', ''bb'', ''a''] ex_cntx) =
     ack ''subscribe'' ''a'' 1 @ ack ''subscribe'' ''bb'' 2 @ ack ''subscribe'' ''a'' 2"
    and r2: "replies (ChangePSub 2 0 True True [''a'', ''bb'', ''a''] ex_cntx) =
     ack ''psubscribe'' ''a'' 1 @ ack ''psubscribe'' ''bb'' 2 @ ack ''psubscribe'' ''a'' 2"
    and r3: "\<exists>new. slice_calls (ChangeSubscription ex_shard 2 0 True True [''a'', ''bb'', ''a''] ex_cntx) 1
                 = slice_calls ex_cntx 1 @ new
          \<and> distinct new
          \<and> set new = (if (1::nat) < 2
                        then slice_call_of True 0
                               ` {x \<in> set [''a'', ''bb'', ''a'']. ex_shard x = 1
                                    \<and> changes True (subscribed_channels ex_cntx) x}
                        else {})"
    unfolding three
    by (simp_all add: subs_after_def subscribed_channels_def subscribed_patterns_def ex_cntx_def
        fcard_finsert_if fcard_fempty ack_def)
  from r3 obtain new where
    n1: "slice_calls (ChangeSubscription ex_shard 2 0 True True [''a'', ''bb'', ''a''] ex_cntx) 1
           = slice_calls ex_cntx 1 @ new"
    and n2: "distinct new"
    and n3: "set new = slice_call_of True 0
               ` {x \<in> set [''a'', ''bb'', ''a'']. ex_shard x = 1
                    \<and> changes True (subscribed_channels ex_cntx) x}"
    by auto
  have "{x \<in> set [''a'', ''bb'', ''a'']. ex_shard x = 1
          \<and> changes True (subscribed_channels ex_cntx) x} = {''a''}"
    by (auto simp: ex_shard_def changes_def subscribed_channels_def ex_cntx_def)
  then have "set new = {AddSubscription ''a'' 0}"
    using n3 by (simp add: slice_call_of_def)
  moreover have "slice_calls (ChangeSubscription ex_shard 2 0 True True [''a'', ''bb'', ''a''] ex_cntx) 1 = new"
    using n1 by (simp add: ex_cntx_def)
  ultimately have "\<exists>new. slice_calls (ChangeSubscription ex_shard 2 0 True True [''a'', ''bb'', ''a''] ex_cntx) 1 = new
          \<and> distinct new \<and> set new = {AddSubscription ''a'' 0}"
    using n2 by blast
  with r1 r2 show ?thesis by blast
qed

subsection \<open>Closing a subscribed connection\<close>

lemma fold_apply_removals:
  "list_all is_removal calls \<Longrightarrow>
   fold apply_call calls (cs, ps) = (cs |-| removed_channels calls, ps |-| removed_patterns calls)"
proof (induction calls arbitrary: cs ps)
  case Nil
  then show ?case by simp
next
  case (Cons c calls)
  then show ?case by (cases c) auto
qed

lemma removed_channels_set:
  "fset (removed_channels calls) = {ch. RemoveSubscription ch \<in> set calls}"
  by (induction calls rule: removed_channels.induct) auto

lemma removed_patterns_set:
  "fset (removed_patterns calls) = {p. RemoveGlobPattern p \<in> set calls}"
  by (induction calls rule: removed_patterns.induct) auto

lemma subs_after_remove: "subs_after False S as = S |-| fset_of_list as"
  by (induction as arbitrary: S) (auto simp: subs_after_def)

lemma posted_append: "slice_calls c' sid = slice_calls c sid @ new \<Longrightarrow> posted c c' sid = new"
  by (simp add: posted_def)

lemma removals_of_image:
  assumes "set new = RemoveSubscription ` A"
  shows "list_all is_removal new" and "fset (removed_channels new) = A"
    and "removed_patterns new = {||}"
proof -
  show "list_all is_removal new"
    using assms by (auto simp: list_all_iff)
  show "fset (removed_channels new) = A"
    using assms by (auto simp: removed_channels_set)
  have "fset (removed_patterns new) = {}"
    using assms by (auto simp: removed_patterns_set)
  then show "removed_patterns new = {||}"
    by (simp add: bot_fset.rep_eq [symmetric] fset_inject del: bot_fset.rep_eq)
qed

lemma pattern_removals_of_image:
  assumes "set new = RemoveGlobPattern ` A"
  shows "list_all is_removal new" and "fset (removed_patterns new) = A"
    and "removed_channels new = {||}"
proof -
  show "list_all is_removal new"
    using assms by (auto simp: list_all_iff)
  show "fset (removed_patterns new) = A"
    using assms by (auto simp: removed_patterns_set)
  have "fset (removed_channels new) = {}"
    using assms by (auto simp: removed_channels_set)
  then show "removed_channels new = {||}"
    by (simp add: bot_fset.rep_eq [symmetric] fset_inject del: bot_fset.rep_eq)
qed

lemma unsubscribe_all_channels:
  assumes si: "subscribe_info c = Some \<lparr>channels = C, patterns = P\<rparr>"
    and ord: "fset_of_list chs = C"
  shows "subscribe_info (ChangeSubscription sh n tid False False chs c)
           = (if P = {||} then None else Some \<lparr>channels = {||}, patterns = P\<rparr>)"
    and "list_all is_removal (posted c (ChangeSubscription sh n tid False False chs c) sid)"
    and "removed_channels (posted c (ChangeSubscription sh n tid False False chs c) sid)
           = (if sid < n then ffilter (\<lambda>ch. sh ch = sid) C else {||})"
    and "removed_patterns (posted c (ChangeSubscription sh n tid False False chs c) sid) = {||}"
    and "set (slice_calls c sid) \<union> set (posted c (ChangeSubscription sh n tid False False chs c) sid)
           = set (slice_calls (ChangeSubscription sh n tid False False chs c) sid)"
proof -
  let ?c' = "ChangeSubscription sh n tid False False chs c"
  have nn: "False \<or> subscribe_info c \<noteq> None" using si by simp
  have io: "info_of c = \<lparr>channels = C, patterns = P\<rparr>" using si by (simp add: info_of_def)
  have sc: "subscribed_channels c = C" using si by (simp add: subscribed_channels_def)
  obtain S sizes chans0 where
    g: "gather_channels False sh chs (channels (info_of c)) = (S, sizes, chans0)"
    by (cases "gather_channels False sh chs (channels (info_of c))") auto
  from gather_channels_spec [OF g] have "S = subs_after False C chs" by (simp add: io)
  then have S: "S = {||}" using ord by (simp add: subs_after_remove)
  show "subscribe_info ?c' = (if P = {||} then None else Some \<lparr>channels = {||}, patterns = P\<rparr>)"
    unfolding ChangeSubscription_unfold [OF nn g]
    by (simp add: io S info_after_def IsEmpty_info_def)
  from ChangeSubscription_calls [of sh n tid False False chs c sid]
  obtain new where n1: "slice_calls ?c' sid = slice_calls c sid @ new"
    and n3: "set new = (if sid < n
                       then slice_call_of False tid
                              ` {a \<in> set chs. sh a = sid \<and> changes False (subscribed_channels c) a}
                       else {})"
    by blast
  have p: "posted c ?c' sid = new" using n1 by (rule posted_append)
  have setchs: "set chs = fset C" using ord by (auto simp: fset_of_list.rep_eq)
  have img: "set new = RemoveSubscription ` (if sid < n then {a. a |\<in>| C \<and> sh a = sid} else {})"
    unfolding n3 sc
    by (auto simp: slice_call_of_def changes_def setchs)
  show "list_all is_removal (posted c ?c' sid)"
    unfolding p using img by (rule removals_of_image)
  show "removed_patterns (posted c ?c' sid) = {||}"
    unfolding p using img by (rule removals_of_image)
  have "fset (removed_channels new) = (if sid < n then {a. a |\<in>| C \<and> sh a = sid} else {})"
    using img by (rule removals_of_image)
  then have "fset (removed_channels new) = fset (if sid < n then ffilter (\<lambda>ch. sh ch = sid) C else {||})"
    by auto
  then show "removed_channels (posted c ?c' sid)
           = (if sid < n then ffilter (\<lambda>ch. sh ch = sid) C else {||})"
    unfolding p by (simp only: fset_inject)
  show "set (slice_calls c sid) \<union> set (posted c ?c' sid) = set (slice_calls ?c' sid)"
    unfolding p n1 by simp
qed

lemma unsubscribe_all_patterns:
  assumes si: "subscribe_info c = Some \<lparr>channels = {||}, patterns = P\<rparr>"
    and ord: "fset_of_list ps = P"
  shows "subscribe_info (ChangePSub n tid False False ps c) = None"
    and "list_all is_removal (posted c (ChangePSub n tid False False ps c) sid)"
    and "removed_patterns (posted c (ChangePSub n tid False False ps c) sid)
           = (if sid < n then P else {||})"
    and "removed_channels (posted c (ChangePSub n tid False False ps c) sid) = {||}"
    and "set (slice_calls c sid) \<union> set (posted c (ChangePSub n tid False False ps c) sid)
           = set (slice_calls (ChangePSub n tid False False ps c) sid)"
proof -
  let ?c' = "ChangePSub n tid False False ps c"
  have nn: "False \<or> subscribe_info c \<noteq> None" using si by simp
  have io: "info_of c = \<lparr>channels = {||}, patterns = P\<rparr>" using si by (simp add: info_of_def)
  have sc: "subscribed_patterns c = P" using si by (simp add: subscribed_patterns_def)
  obtain S sizes pats where
    g: "gather_patterns False ps (patterns (info_of c)) = (S, sizes, pats)"
    by (cases "gather_patterns False ps (patterns (info_of c))") auto
  from gather_patterns_spec [OF g] have "S = subs_after False P ps" by (simp add: io)
  then have S: "S = {||}" using ord by (simp add: subs_after_remove)
  show "subscribe_info ?c' = None"
    unfolding ChangePSub_unfold [OF nn g]
    by (simp add: io S info_after_def IsEmpty_info_def)
  from ChangePSub_calls [of n tid False False ps c sid]
  obtain new where n1: "slice_calls ?c' sid = slice_calls c sid @ new"
    and n3: "set new = (if sid < n
                       then pattern_call_of False tid
                              ` {a \<in> set ps. changes False (subscribed_patterns c) a}
                       else {})"
    by blast
  have p: "posted c ?c' sid = new" using n1 by (rule posted_append)
  have setps: "set ps = fset P" using ord by (auto simp: fset_of_list.rep_eq)
  have img: "set new = RemoveGlobPattern ` (if sid < n then fset P else {})"
    unfolding n3 sc
    by (auto simp: pattern_call_of_def changes_def setps)
  show "list_all is_removal (posted c ?c' sid)"
    unfolding p using img by (rule pattern_removals_of_image)
  show "removed_channels (posted c ?c' sid) = {||}"
    unfolding p using img by (rule pattern_removals_of_image)
  have "fset (removed_patterns new) = (if sid < n then fset P else {})"
    using img by (rule pattern_removals_of_image)
  then have "fset (removed_patterns new) = fset (if sid < n then P else {||})"
    by auto
  then show "removed_patterns (posted c ?c' sid) = (if sid < n then P else {||})"
    unfolding p by (simp only: fset_inject)
  show "set (slice_calls c sid) \<union> set (posted c ?c' sid) = set (slice_calls ?c' sid)"
    unfolding p n1 by simp
qed

lemma ffilter_fempty: "ffilter Q {||} = {||}"
  by auto

lemma OnClose_step_inv:
  assumes sh: "\<And>ch. sh ch < n"
    and ne: "\<not> (C = {||} \<and> P = {||})"
    and inv: "close_inv sh n C P s"
    and step: "OnClose_step sh n tid order s = Some s'"
  shows "close_inv sh n C P s'"
proof (cases "pc s")
  case Start
  with inv have si: "subscribe_info (conn_cntx s) = Some \<lparr>channels = C, patterns = P\<rparr>"
    and reg: "\<forall>sid<n. registered_channels s sid = ffilter (\<lambda>ch. sh ch = sid) C
                \<and> registered_patterns s sid = P \<and> todo s sid = []"
    by (simp_all add: close_inv_def)
  show ?thesis
  proof (cases "C = {||}")
    case True
    with step Start si have s': "s' = s\<lparr>pc := PatCheck\<rparr>"
      by (simp add: OnClose_step_def)
    from True ne have "P \<noteq> {||}" by simp
    then show ?thesis
      using s' si reg True
      by (simp add: close_inv_def info_left_def chan_logged_def ffilter_fempty)
  next
    case False
    let ?c' = "ChangeSubscription sh n tid False False order (conn_cntx s)"
    from step Start si False have ord: "fset_of_list order = C"
      and s': "s' = s\<lparr>conn_cntx := ?c', todo := posted (conn_cntx s) ?c', pc := ChanTasks\<rparr>"
      by (simp_all add: OnClose_step_def Let_def split: if_splits)
    note u = unsubscribe_all_channels [where sh = sh and n = n and tid = tid, OF si ord]
    have logged: "chan_logged sh C s'"
      unfolding chan_logged_def
    proof (intro allI impI)
      fix ch assume ch: "ch |\<in>| C"
      have "removed_channels (posted (conn_cntx s) ?c' (sh ch)) = ffilter (\<lambda>x. sh x = sh ch) C"
        using u(3) [of "sh ch"] sh [of ch] by simp
      then have "ch |\<in>| removed_channels (posted (conn_cntx s) ?c' (sh ch))"
        using ch by simp
      then have "RemoveSubscription ch \<in> set (posted (conn_cntx s) ?c' (sh ch))"
        using removed_channels_set [of "posted (conn_cntx s) ?c' (sh ch)"] by auto
      then show "RemoveSubscription ch \<in> set (slice_calls (conn_cntx s') (sh ch))"
        using u(5) [of "sh ch"] s' by auto
    qed
    have "subscribe_info (conn_cntx s') = info_left P"
      using u(1) s' by (simp add: info_left_def)
    moreover have "\<forall>sid<n. registered_channels s' sid = removed_channels (todo s' sid)
                \<and> removed_patterns (todo s' sid) = {||}
                \<and> list_all is_removal (todo s' sid)
                \<and> registered_patterns s' sid = P"
      using u(2,3,4) reg s' by simp
    ultimately show ?thesis using logged s' by (simp add: close_inv_def)
  qed
next
  case ChanTasks
  with step have all: "list_all (\<lambda>sid. todo s sid = []) [0..<n]" and s': "s' = s\<lparr>pc := ChanWait\<rparr>"
    by (simp_all add: OnClose_step_def split: if_splits)
  from all have "\<forall>sid<n. todo s sid = []" by (simp add: list_all_iff)
  then show ?thesis
    using inv ChanTasks s' by (simp add: close_inv_def chan_logged_def)
next
  case ChanWait
  with step have z: "borrow_token s = 0" and s': "s' = s\<lparr>pc := PatCheck\<rparr>"
    by (simp_all add: OnClose_step_def split: if_splits)
  then show ?thesis
    using inv ChanWait by (simp add: close_inv_def chan_logged_def)
next
  case PatCheck
  with inv have si: "subscribe_info (conn_cntx s) = info_left P"
    and reg: "\<forall>sid<n. registered_channels s sid = {||}
                \<and> registered_patterns s sid = P \<and> todo s sid = []"
    and lg: "chan_logged sh C s"
    and tk: "P = {||} \<longrightarrow> borrow_token s = 0"
    by (simp_all add: close_inv_def)
  show ?thesis
  proof (cases "P = {||}")
    case True
    with step PatCheck si have s': "s' = s\<lparr>pc := Done\<rparr>"
      by (simp add: OnClose_step_def info_left_def)
    then show ?thesis
      using si reg lg tk True
      by (simp add: close_inv_def info_left_def chan_logged_def pat_logged_def)
  next
    case False
    let ?c' = "ChangePSub n tid False False order (conn_cntx s)"
    from False si have si': "subscribe_info (conn_cntx s) = Some \<lparr>channels = {||}, patterns = P\<rparr>"
      by (simp add: info_left_def)
    from step PatCheck si' have ord: "fset_of_list order = P"
      and s': "s' = s\<lparr>conn_cntx := ?c', todo := posted (conn_cntx s) ?c', pc := PatTasks\<rparr>"
      by (simp_all add: OnClose_step_def Let_def split: if_splits)
    note u = unsubscribe_all_patterns [where n = n and tid = tid, OF si' ord]
    have cl: "chan_logged sh C s'"
      unfolding chan_logged_def
    proof (intro allI impI)
      fix ch assume "ch |\<in>| C"
      then have "RemoveSubscription ch \<in> set (slice_calls (conn_cntx s) (sh ch))"
        using lg by (simp add: chan_logged_def)
      then show "RemoveSubscription ch \<in> set (slice_calls (conn_cntx s') (sh ch))"
        using u(5) [of "sh ch"] s' by auto
    qed
    have pl: "pat_logged n P s'"
      unfolding pat_logged_def
    proof (intro allI impI)
      fix p sid assume a: "p |\<in>| P \<and> sid < n"
      then have "p |\<in>| removed_patterns (posted (conn_cntx s) ?c' sid)"
        using u(3) [of sid] by simp
      then have "RemoveGlobPattern p \<in> set (posted (conn_cntx s) ?c' sid)"
        using removed_patterns_set [of "posted (conn_cntx s) ?c' sid"] by auto
      then show "RemoveGlobPattern p \<in> set (slice_calls (conn_cntx s') sid)"
        using u(5) [of sid] s' by auto
    qed
    have "subscribe_info (conn_cntx s') = None" using u(1) s' by simp
    moreover have "\<forall>sid<n. registered_channels s' sid = {||}
                \<and> registered_patterns s' sid = removed_patterns (todo s' sid)
                \<and> removed_channels (todo s' sid) = {||}
                \<and> list_all is_removal (todo s' sid)"
      using u(2,3,4) reg s' by simp
    ultimately show ?thesis using cl pl s' by (simp add: close_inv_def)
  qed
next
  case PatTasks
  with step have all: "list_all (\<lambda>sid. todo s sid = []) [0..<n]" and s': "s' = s\<lparr>pc := PatWait\<rparr>"
    by (simp_all add: OnClose_step_def split: if_splits)
  from all have "\<forall>sid<n. todo s sid = []" by (simp add: list_all_iff)
  then show ?thesis
    using inv PatTasks s' by (simp add: close_inv_def chan_logged_def pat_logged_def)
next
  case PatWait
  with step have z: "borrow_token s = 0" and s': "s' = s\<lparr>pc := Done\<rparr>"
    by (simp_all add: OnClose_step_def split: if_splits)
  then show ?thesis
    using inv PatWait by (simp add: close_inv_def chan_logged_def pat_logged_def)
next
  case Done
  with step show ?thesis by (simp add: OnClose_step_def)
qed

lemma shard_task_inv:
  assumes inv: "close_inv sh n C P s"
    and step: "close_step sh n tid (ShardTask sid) s = Some s'"
  shows "close_inv sh n C P s'"
proof -
  from step have sid: "sid < n" and td: "todo s sid \<noteq> []"
    by (auto split: if_splits)
  obtain cs ps where f: "fold apply_call (todo s sid)
       (registered_channels s sid, registered_patterns s sid) = (cs, ps)"
    by (cases "fold apply_call (todo s sid) (registered_channels s sid, registered_patterns s sid)")
  from step sid td f have s': "s' = s\<lparr>registered_channels := (registered_channels s)(sid := cs),
                   registered_patterns := (registered_patterns s)(sid := ps),
                   todo := (todo s)(sid := [])\<rparr>"
    by simp
  show ?thesis
  proof (cases "pc s")
    case ChanTasks
    with inv sid have r: "registered_channels s sid = removed_channels (todo s sid)"
      "removed_patterns (todo s sid) = {||}" "list_all is_removal (todo s sid)"
      by (simp_all add: close_inv_def)
    from f fold_apply_removals [OF r(3)] r(1,2)
    have "cs = {||}" "ps = registered_patterns s sid" by simp_all
    then show ?thesis
      using inv ChanTasks s' by (simp add: close_inv_def chan_logged_def)
  next
    case PatTasks
    with inv sid have r: "registered_patterns s sid = removed_patterns (todo s sid)"
      "removed_channels (todo s sid) = {||}" "list_all is_removal (todo s sid)"
      "registered_channels s sid = {||}"
      by (simp_all add: close_inv_def)
    from f fold_apply_removals [OF r(3)] r(1,2,4)
    have "cs = {||}" "ps = {||}" by simp_all
    then show ?thesis
      using inv PatTasks s' by (simp add: close_inv_def chan_logged_def pat_logged_def)
  next
    case Start
    with inv sid td show ?thesis by (simp add: close_inv_def)
  next
    case ChanWait
    with inv sid td show ?thesis by (simp add: close_inv_def)
  next
    case PatCheck
    with inv sid td show ?thesis by (simp add: close_inv_def)
  next
    case PatWait
    with inv sid td show ?thesis by (simp add: close_inv_def)
  next
    case Done
    with inv sid td show ?thesis by (simp add: close_inv_def)
  qed
qed

lemma borrow_inv:
  assumes inv: "close_inv sh n C P s"
    and step: "close_step sh n tid PublisherBorrow s = Some s'"
  shows "close_inv sh n C P s'"
proof -
  from step have ex: "list_ex (\<lambda>sid. registered_channels s sid \<noteq> {||}
                                \<or> registered_patterns s sid \<noteq> {||}) [0..<n]"
    and s': "s' = s\<lparr>borrow_token := borrow_token s + 1\<rparr>"
    by (simp_all split: if_splits)
  from ex have "\<exists>sid<n. registered_channels s sid \<noteq> {||} \<or> registered_patterns s sid \<noteq> {||}"
    unfolding list_ex_iff by (simp add: Bex_def)
  then obtain sid where sid: "sid < n"
    and reg: "registered_channels s sid \<noteq> {||} \<or> registered_patterns s sid \<noteq> {||}"
    by blast
  show ?thesis
  proof (cases "pc s")
    case PatCheck
    with inv sid reg have "P \<noteq> {||}" by (auto simp: close_inv_def)
    with inv PatCheck s' show ?thesis by (simp add: close_inv_def chan_logged_def)
  next
    case Done
    with inv sid reg show ?thesis by (auto simp: close_inv_def)
  next
    case Start
    with inv s' show ?thesis by (simp add: close_inv_def)
  next
    case ChanTasks
    with inv s' show ?thesis by (simp add: close_inv_def chan_logged_def)
  next
    case ChanWait
    with inv s' show ?thesis by (simp add: close_inv_def chan_logged_def)
  next
    case PatTasks
    with inv s' show ?thesis by (simp add: close_inv_def chan_logged_def pat_logged_def)
  next
    case PatWait
    with inv s' show ?thesis by (simp add: close_inv_def chan_logged_def pat_logged_def)
  qed
qed

lemma release_inv:
  assumes inv: "close_inv sh n C P s"
    and step: "close_step sh n tid PublisherRelease s = Some s'"
  shows "close_inv sh n C P s'"
proof -
  from step have pos: "borrow_token s > 0" and s': "s' = s\<lparr>borrow_token := borrow_token s - 1\<rparr>"
    by (auto split: if_splits)
  show ?thesis
    using inv pos s'
    by (cases "pc s") (auto simp: close_inv_def chan_logged_def pat_logged_def)
qed

lemma close_step_inv:
  assumes "\<And>ch. sh ch < n" and "\<not> (C = {||} \<and> P = {||})"
    and "close_inv sh n C P s"
    and "close_step sh n tid l s = Some s'"
  shows "close_inv sh n C P s'"
proof (cases l)
  case (OnCloseMove order)
  with assms(4) have "OnClose_step sh n tid order s = Some s'" by simp
  with assms(1,2,3) show ?thesis by (rule OnClose_step_inv)
next
  case (ShardTask sid)
  with assms(3,4) show ?thesis using shard_task_inv by blast
next
  case PublisherBorrow
  with assms(3,4) show ?thesis using borrow_inv by blast
next
  case PublisherRelease
  with assms(3,4) show ?thesis using release_inv by blast
qed

lemma run_close_inv:
  assumes "\<And>ch. sh ch < n" and "\<not> (C = {||} \<and> P = {||})"
  shows "close_inv sh n C P s \<Longrightarrow> run_close sh n tid ls s = Some s' \<Longrightarrow> close_inv sh n C P s'"
proof (induction ls arbitrary: s)
  case Nil
  then show ?case by simp
next
  case (Cons l ls)
  from Cons.prems(2) obtain s1 where s1: "close_step sh n tid l s = Some s1"
    and r: "run_close sh n tid ls s1 = Some s'"
    by (auto split: option.splits)
  have "close_inv sh n C P s1"
    using assms Cons.prems(1) s1 by (rule close_step_inv)
  then show ?case using r by (rule Cons.IH)
qed

lemma ex_close_channels:
  "subscribe_info (ChangeSubscription ex_shard 2 0 False False [''a''] ex_close_cntx)
     = Some \<lparr>channels = {||}, patterns = {|''p*''|}\<rparr>"
  "posted ex_close_cntx (ChangeSubscription ex_shard 2 0 False False [''a''] ex_close_cntx)
     = (\<lambda>sid. if sid = 1 then [RemoveSubscription ''a''] else [])"
proof -
  have nn: "False \<or> subscribe_info ex_close_cntx \<noteq> None" by (simp add: ex_close_cntx_def)
  have g: "gather_channels False ex_shard [''a''] (channels (info_of ex_close_cntx))
             = ({||}, [0], [(1, ''a'')])"
    by (simp add: info_of_def ex_close_cntx_def ex_shard_def fcard_fempty)
  show "subscribe_info (ChangeSubscription ex_shard 2 0 False False [''a''] ex_close_cntx)
     = Some \<lparr>channels = {||}, patterns = {|''p*''|}\<rparr>"
    unfolding ChangeSubscription_unfold [OF nn g]
    by (simp add: info_of_def ex_close_cntx_def info_after_def IsEmpty_info_def)
  show "posted ex_close_cntx (ChangeSubscription ex_shard 2 0 False False [''a''] ex_close_cntx)
     = (\<lambda>sid. if sid = 1 then [RemoveSubscription ''a''] else [])"
    unfolding ChangeSubscription_unfold [OF nn g]
    by (rule ext) (auto simp: posted_def ex_close_cntx_def slice_call_of_def)
qed

lemma ex_close_patterns:
  "subscribe_info (ChangePSub 2 0 False False [''p*''] ex_close_cntx1) = None"
  "posted ex_close_cntx1 (ChangePSub 2 0 False False [''p*''] ex_close_cntx1)
     = (\<lambda>sid. if sid < 2 then [RemoveGlobPattern ''p*''] else [])"
proof -
  have si: "subscribe_info ex_close_cntx1 = Some \<lparr>channels = {||}, patterns = {|''p*''|}\<rparr>"
    unfolding ex_close_cntx1_def by (rule ex_close_channels)
  have nn: "False \<or> subscribe_info ex_close_cntx1 \<noteq> None" using si by simp
  have g: "gather_patterns False [''p*''] (patterns (info_of ex_close_cntx1))
             = ({||}, [0], [''p*''])"
    by (simp add: info_of_def si fcard_fempty)
  show "subscribe_info (ChangePSub 2 0 False False [''p*''] ex_close_cntx1) = None"
    unfolding ChangePSub_unfold [OF nn g]
    by (simp add: info_of_def si info_after_def IsEmpty_info_def)
  show "posted ex_close_cntx1 (ChangePSub 2 0 False False [''p*''] ex_close_cntx1)
     = (\<lambda>sid. if sid < 2 then [RemoveGlobPattern ''p*''] else [])"
    unfolding ChangePSub_unfold [OF nn g]
    by (rule ext) (auto simp: posted_def pattern_call_of_def)
qed

lemma ex_close_run:
  "\<exists>s. run_close ex_shard 2 0 ex_schedule ex_close0 = Some s \<and> pc s = Done"
proof -
  have si1: "subscribe_info ex_close_cntx1 = Some \<lparr>channels = {||}, patterns = {|''p*''|}\<rparr>"
    unfolding ex_close_cntx1_def by (rule ex_close_channels)
  have po1: "posted ex_close_cntx ex_close_cntx1
     = (\<lambda>sid. if sid = 1 then [RemoveSubscription ''a''] else [])"
    unfolding ex_close_cntx1_def by (rule ex_close_channels)
  have si0: "subscribe_info ex_close_cntx = Some \<lparr>channels = {|''a''|}, patterns = {|''p*''|}\<rparr>"
    by (simp add: ex_close_cntx_def)
  have two: "[0..<2] = [0, 1]" by (simp add: upt_rec)
  show ?thesis
    by (simp add: ex_schedule_def ex_close0_def OnClose_step_def Let_def si0 si1 po1
        ex_close_cntx1_def [symmetric] ex_close_patterns two)
qed

text \<open>
  C3. Let a connection hold a non-empty subscription record, and let every shard list it
  under exactly its channels of that shard and under all its patterns, when \<open>OnClose\<close>
  begins. Whatever the shards and the publishers do meanwhile, when \<open>OnClose\<close> has
  returned it has posted the removal of every channel to the shard that owns it and of
  every pattern to every shard, the record is gone, no shard lists the connection any
  more, and the borrow token is 0: no publisher holds a reference and none can take one.
\<close>

theorem OnClose_drains_borrowers:
  assumes "\<And>ch. shard_of ch < n"
    and "pc s0 = Start"
    and "subscribe_info (conn_cntx s0) = Some info"
    and "\<not> IsEmpty_info info"
    and "\<forall>sid<n. registered_channels s0 sid = ffilter (\<lambda>ch. shard_of ch = sid) (channels info)
               \<and> registered_patterns s0 sid = patterns info \<and> todo s0 sid = []"
    and "run_close shard_of n tid ls s0 = Some s"
    and "pc s = Done"
  shows "borrow_token s = 0
       \<and> (\<forall>sid<n. registered_channels s sid = {||} \<and> registered_patterns s sid = {||})
       \<and> subscribe_info (conn_cntx s) = None
       \<and> (\<forall>ch. ch |\<in>| channels info \<longrightarrow>
             RemoveSubscription ch \<in> set (slice_calls (conn_cntx s) (shard_of ch)))
       \<and> (\<forall>pat sid. pat |\<in>| patterns info \<and> sid < n \<longrightarrow>
             RemoveGlobPattern pat \<in> set (slice_calls (conn_cntx s) sid))"
proof -
  have ne: "\<not> (channels info = {||} \<and> patterns info = {||})"
    using assms(4) by (simp add: IsEmpty_info_def)
  have "close_inv shard_of n (channels info) (patterns info) s0"
    using assms(2,3,5) by (simp add: close_inv_def)
  with assms(1) ne have "close_inv shard_of n (channels info) (patterns info) s"
    using assms(6) by (rule run_close_inv)
  then show ?thesis
    using assms(7) by (simp add: close_inv_def chan_logged_def pat_logged_def)
qed

theorem OnClose_drains_borrowers_witness:
  "\<exists>s. run_close ex_shard 2 0 ex_schedule ex_close0 = Some s
       \<and> pc s = Done
       \<and> borrow_token s = 0
       \<and> registered_channels s 1 = {||}
       \<and> registered_patterns s 0 = {||}
       \<and> registered_patterns s 1 = {||}
       \<and> subscribe_info (conn_cntx s) = None
       \<and> RemoveSubscription ''a'' \<in> set (slice_calls (conn_cntx s) 1)
       \<and> RemoveGlobPattern ''p*'' \<in> set (slice_calls (conn_cntx s) 0)"
proof -
  from ex_close_run obtain s where run: "run_close ex_shard 2 0 ex_schedule ex_close0 = Some s"
    and fin: "pc s = Done"
    by blast
  have a: "ex_shard ch < 2" for ch by (simp add: ex_shard_def)
  have b: "pc ex_close0 = Start" by (simp add: ex_close0_def)
  have c: "subscribe_info (conn_cntx ex_close0)
             = Some \<lparr>channels = {|''a''|}, patterns = {|''p*''|}\<rparr>"
    by (simp add: ex_close0_def ex_close_cntx_def)
  have d: "\<not> IsEmpty_info \<lparr>channels = {|''a''|}, patterns = {|''p*''|}\<rparr>"
    by (simp add: IsEmpty_info_def)
  have e: "\<forall>sid<2. registered_channels ex_close0 sid
                 = ffilter (\<lambda>ch. ex_shard ch = sid) (channels \<lparr>channels = {|''a''|}, patterns = {|''p*''|}\<rparr>)
               \<and> registered_patterns ex_close0 sid = patterns \<lparr>channels = {|''a''|}, patterns = {|''p*''|}\<rparr>
               \<and> todo ex_close0 sid = []"
    by (auto simp: ex_close0_def ex_shard_def less_2_cases_iff)
  from OnClose_drains_borrowers [where shard_of = ex_shard and n = 2, OF a b c d e run fin]
  have "borrow_token s = 0
       \<and> registered_channels s 1 = {||}
       \<and> registered_patterns s 0 = {||}
       \<and> registered_patterns s 1 = {||}
       \<and> subscribe_info (conn_cntx s) = None
       \<and> RemoveSubscription ''a'' \<in> set (slice_calls (conn_cntx s) 1)
       \<and> RemoveGlobPattern ''p*'' \<in> set (slice_calls (conn_cntx s) 0)"
    by (simp add: ex_shard_def)
  with run fin show ?thesis by blast
qed

end
